theory Spec2Isabelle
  imports Complex_Main "HOL-Library.Word"
begin

section \<open>Data model of the step sequencer\<close>

text \<open>
  The sequencer stores its patterns as vectors of step events (\<^verbatim>\<open>pattern.cpp\<close>) and
  drives them from the JACK callbacks of \<^verbatim>\<open>zynseq.cpp\<close>.  Unsigned machine integers
  are words of their width, so that \<open>+\<close>, \<open>-\<close> and \<open>*\<close> wrap as they do in C++.
  The \<^verbatim>\<open>float\<close> and \<^verbatim>\<open>double\<close> quantities (durations, tempo, frames per clock) are
  modelled as exact reals: rounding of the binary formats is not part of the model.
\<close>

type_synonym u8 = "8 word"
type_synonym u16 = "16 word"
type_synonym u32 = "32 word"

text \<open>MIDI status codes used by the pattern code (spec section 6).\<close>

definition MIDI_NOTE_ON :: u8 where "MIDI_NOTE_ON = 0x90"
definition MIDI_CONTROL :: u8 where "MIDI_CONTROL = 0xB0"
definition MIDI_PROGRAM :: u8 where "MIDI_PROGRAM = 0xC0"

text \<open>
  Modelled from the spec: the class \<^verbatim>\<open>StepEvent\<close> is declared in \<^verbatim>\<open>pattern.h\<close>, which is
  not among the sources.  Its fields are the ones read by the getters that
  \<^verbatim>\<open>pattern.cpp\<close> calls; each field carries the name of its getter, and a setter is
  the record update of that field.
\<close>

record StepEvent =
  getPosition :: u32
  getCommand :: u8
  getValue1start :: u8
  getValue2start :: u8
  getValue1end :: u8
  getValue2end :: u8
  getDuration :: real

text \<open>
  Modelled from the spec: the constructor
  \<^verbatim>\<open>StepEvent(position, command, value1, value2, duration)\<close> of \<^verbatim>\<open>pattern.h\<close>.  The
  end values of a discrete event equal its start values.
\<close>

definition StepEvent_new :: "u32 \<Rightarrow> u8 \<Rightarrow> u8 \<Rightarrow> u8 \<Rightarrow> real \<Rightarrow> StepEvent" where
  "StepEvent_new position command value1 value2 duration =
     \<lparr> getPosition = position, getCommand = command,
       getValue1start = value1, getValue2start = value2,
       getValue1end = value1, getValue2end = value2,
       getDuration = duration \<rparr>"

text \<open>The members of \<^verbatim>\<open>Pattern\<close> that the event operations read and write.\<close>

record Pattern =
  m_nBeats :: u32
  m_nStepsPerBeat :: u32
  m_vEvents :: "StepEvent list"

text \<open>\<^verbatim>\<open>Pattern::getSteps\<close>: the product wraps in 32 bits.\<close>

definition getSteps :: "Pattern \<Rightarrow> u32" where
  "getSteps p = m_nBeats p * m_nStepsPerBeat p"

text \<open>Conversion of an unsigned 32-bit value to floating point.\<close>

definition to_float :: "u32 \<Rightarrow> real" where
  "to_float n = real (unat n)"

subsection \<open>Adding and deleting events\<close>

text \<open>
  The overlap test of \<^verbatim>\<open>Pattern::addEvent\<close> for one stored event \<open>chk\<close> against the
  new interval.  The two sums and the four comparisons are single-precision
  operations in the code and exact ones here: they agree where the positions and
  the durations are integers below \<open>2^24\<close>, and can differ where a sum is rounded.
\<close>

definition bOverlap :: "u32 \<Rightarrow> real \<Rightarrow> StepEvent \<Rightarrow> bool" where
  "bOverlap position duration chk =
     (let nEventStart = position;
          fEventEnd = to_float nEventStart + duration;
          nCheckStart = getPosition chk;
          fCheckEnd = to_float nCheckStart + getDuration chk
      in (nCheckStart \<ge> nEventStart \<and> to_float nCheckStart < fEventEnd)
         \<or> (fCheckEnd > to_float nEventStart \<and> fCheckEnd \<le> fEventEnd))"

text \<open>
  The first loop of \<^verbatim>\<open>addEvent\<close>.  After \<^verbatim>\<open>it = erase(it) - 1\<close> and the loop's
  \<^verbatim>\<open>++it\<close> the iterator stands on the element that followed the erased one, so
  every stored event is tested once.  (When the first element is erased the
  iterator passes through the position before the beginning of the vector, which
  C++ leaves undefined; the model follows the pointer arithmetic.)
\<close>

fun erase_overlapping :: "u32 \<Rightarrow> u8 \<Rightarrow> u8 \<Rightarrow> real \<Rightarrow> StepEvent list \<Rightarrow> StepEvent list" where
  "erase_overlapping position command value1 duration [] = []"
| "erase_overlapping position command value1 duration (chk # rest) =
     (if bOverlap position duration chk \<and> getCommand chk = command
         \<and> getValue1start chk = value1
      then erase_overlapping position command value1 duration rest
      else chk # erase_overlapping position command value1 duration rest)"

text \<open>
  The second loop of \<^verbatim>\<open>addEvent\<close>: the index of the first event whose position is
  greater than the new position, or the size of the vector.
\<close>

fun insert_index :: "u32 \<Rightarrow> StepEvent list \<Rightarrow> nat" where
  "insert_index position [] = 0"
| "insert_index position (e # es) =
     (if getPosition e > position then 0 else Suc (insert_index position es))"

text \<open>
  \<^verbatim>\<open>Pattern::addEvent\<close>.  The returned pointer to the inserted element is its index
  in the vector.
\<close>

definition addEvent :: "u32 \<Rightarrow> u8 \<Rightarrow> u8 \<Rightarrow> u8 \<Rightarrow> real \<Rightarrow> Pattern \<Rightarrow> nat \<times> Pattern" where
  "addEvent position command value1 value2 duration p =
     (let evs = erase_overlapping position command value1 duration (m_vEvents p);
          i = insert_index position evs
      in (i, p\<lparr>m_vEvents :=
                take i evs @ StepEvent_new position command value1 value2 duration # drop i evs\<rparr>))"

text \<open>\<^verbatim>\<open>Pattern::deleteEvent\<close>: erases the first matching event only.\<close>

fun erase_first :: "u32 \<Rightarrow> u8 \<Rightarrow> u8 \<Rightarrow> StepEvent list \<Rightarrow> StepEvent list" where
  "erase_first position command value1 [] = []"
| "erase_first position command value1 (e # es) =
     (if getPosition e = position \<and> getCommand e = command \<and> getValue1start e = value1
      then es
      else e # erase_first position command value1 es)"

definition deleteEvent :: "u32 \<Rightarrow> u8 \<Rightarrow> u8 \<Rightarrow> Pattern \<Rightarrow> Pattern" where
  "deleteEvent position command value1 p =
     p\<lparr>m_vEvents := erase_first position command value1 (m_vEvents p)\<rparr>"

text \<open>\<^verbatim>\<open>Pattern::addNote\<close>: the returned flag and the pattern afterwards.\<close>

definition addNote :: "u32 \<Rightarrow> u8 \<Rightarrow> u8 \<Rightarrow> real \<Rightarrow> Pattern \<Rightarrow> bool \<times> Pattern" where
  "addNote step note velocity duration p =
     (if step \<ge> getSteps p \<or> note > 127 \<or> velocity > 127
      then (False, p)
      else (True, snd (addEvent step MIDI_NOTE_ON note velocity duration p)))"

text \<open>\<^verbatim>\<open>Pattern::getProgramChange\<close>, with \<open>0xFF\<close> for "no program change".\<close>

fun first_program :: "u32 \<Rightarrow> StepEvent list \<Rightarrow> u8" where
  "first_program step [] = 0xFF"
| "first_program step (ev # rest) =
     (if getPosition ev \<noteq> step \<or> getCommand ev \<noteq> MIDI_PROGRAM
      then first_program step rest
      else getValue1start ev)"

definition getProgramChange :: "u32 \<Rightarrow> Pattern \<Rightarrow> u8" where
  "getProgramChange step p =
     (if step \<ge> getSteps p then 0xFF else first_program step (m_vEvents p))"

definition removeProgramChange :: "u32 \<Rightarrow> Pattern \<Rightarrow> bool \<times> Pattern" where
  "removeProgramChange step p =
     (if step \<ge> getSteps p then (False, p)
      else let program = getProgramChange step p
           in if program = 0xFF then (False, p)
              else (True, deleteEvent step MIDI_PROGRAM program p))"

text \<open>
  \<^verbatim>\<open>Pattern::addProgramChange\<close>.  It calls \<^verbatim>\<open>addEvent(step, MIDI_PROGRAM, program)\<close>;
  the default arguments for the second value and the duration are declared in
  \<^verbatim>\<open>pattern.h\<close> and are parameters here.
\<close>

definition addProgramChange :: "u8 \<Rightarrow> real \<Rightarrow> u32 \<Rightarrow> u8 \<Rightarrow> Pattern \<Rightarrow> bool \<times> Pattern" where
  "addProgramChange dflt_value2 dflt_duration step program p =
     (if step \<ge> getSteps p \<or> program > 127
      then (False, p)
      else (True, snd (addEvent step MIDI_PROGRAM program dflt_value2 dflt_duration
                         (snd (removeProgramChange step p)))))"

text \<open>
  \<^verbatim>\<open>Pattern::addControl\<close>.  The event allocated with \<^verbatim>\<open>new\<close> is never stored; the
  event that \<^verbatim>\<open>addEvent\<close> inserted gets its second end value set through the returned
  pointer.  The comparison of the duration with the number of steps is a
  single-precision one in the code (the number of steps is rounded above \<open>2^24\<close>)
  and exact here; the comparison of the step is an integer one in both.
\<close>

definition addControl :: "u32 \<Rightarrow> u8 \<Rightarrow> u8 \<Rightarrow> u8 \<Rightarrow> real \<Rightarrow> Pattern \<Rightarrow> Pattern" where
  "addControl step control valueStart valueEnd duration p =
     (let fDuration = duration
      in if step > getSteps p \<or> control > 127 \<or> valueStart > 127 \<or> valueEnd > 127
            \<or> fDuration > to_float (getSteps p)
         then p
         else let (i, p') = addEvent step MIDI_CONTROL control valueStart fDuration p
              in p'\<lparr>m_vEvents :=
                     (m_vEvents p')[i := (m_vEvents p' ! i)\<lparr>getValue2end := valueEnd\<rparr>]\<rparr>)"

subsection \<open>Operations that walk the event vector\<close>

text \<open>
  Conversions on assignment: a floating-point value stored in a \<^verbatim>\<open>uint32_t\<close> is
  truncated towards zero, an \<^verbatim>\<open>int\<close> stored in a \<^verbatim>\<open>uint8_t\<close> is reduced modulo 256.
  (A float outside the range of the target is undefined in C++; the model wraps.)
\<close>

definition float_to_u32 :: "real \<Rightarrow> u32" where
  "float_to_u32 x = word_of_int (if x \<ge> 0 then \<lfloor>x\<rfloor> else \<lceil>x\<rceil>)"

definition int_to_u8 :: "int \<Rightarrow> u8" where
  "int_to_u8 i = word_of_int i"

text \<open>
  \<^verbatim>\<open>Pattern::setNoteVelocity\<close>.  The range-based loop \<^verbatim>\<open>for(StepEvent ev : m_vEvents)\<close>
  binds \<open>ev\<close> to a copy of each element; the setter is applied to the copy, which is
  dropped at the end of the iteration.  The loops below thread the pattern through
  unchanged and bind the modified copy locally.
\<close>

fun setNoteVelocity_loop :: "u32 \<Rightarrow> u8 \<Rightarrow> u8 \<Rightarrow> StepEvent list \<Rightarrow> Pattern \<Rightarrow> Pattern" where
  "setNoteVelocity_loop step note velocity [] p = p"
| "setNoteVelocity_loop step note velocity (ev # rest) p =
     (if getPosition ev = step \<and> getCommand ev = MIDI_NOTE_ON \<and> getValue1start ev = note
      then (let ev' = ev\<lparr>getValue2start := velocity\<rparr> in p)
      else setNoteVelocity_loop step note velocity rest p)"

definition setNoteVelocity :: "u32 \<Rightarrow> u8 \<Rightarrow> u8 \<Rightarrow> Pattern \<Rightarrow> Pattern" where
  "setNoteVelocity step note velocity p =
     (if velocity > 127 then p
      else setNoteVelocity_loop step note velocity (m_vEvents p) p)"

text \<open>\<^verbatim>\<open>Pattern::changeVelocityAll\<close>, again over copies.\<close>

fun changeVelocityAll_loop :: "int \<Rightarrow> StepEvent list \<Rightarrow> Pattern \<Rightarrow> Pattern" where
  "changeVelocityAll_loop v [] p = p"
| "changeVelocityAll_loop v (ev # rest) p =
     (if getCommand ev \<noteq> MIDI_NOTE_ON then changeVelocityAll_loop v rest p
      else let vel = uint (getValue2start ev) + v;
               vel = (if vel > 127 then 127 else vel);
               vel = (if vel < 1 then 1 else vel);
               ev' = ev\<lparr>getValue2start := int_to_u8 vel\<rparr>
           in changeVelocityAll_loop v rest p)"

definition changeVelocityAll :: "int \<Rightarrow> Pattern \<Rightarrow> Pattern" where
  "changeVelocityAll v p = changeVelocityAll_loop v (m_vEvents p) p"

text \<open>\<^verbatim>\<open>Pattern::changeDurationAll\<close>, with its early return.\<close>

fun changeDurationAll_loop :: "real \<Rightarrow> StepEvent list \<Rightarrow> Pattern \<Rightarrow> Pattern" where
  "changeDurationAll_loop v [] p = p"
| "changeDurationAll_loop v (ev # rest) p =
     (if getCommand ev \<noteq> MIDI_NOTE_ON then changeDurationAll_loop v rest p
      else let duration = getDuration ev + v
           in if duration \<le> 0 then p
              else let duration = (if duration < 0.1 then 0.1 else duration);
                       ev' = ev\<lparr>getDuration := duration\<rparr>
                   in changeDurationAll_loop v rest p)"

definition changeDurationAll :: "real \<Rightarrow> Pattern \<Rightarrow> Pattern" where
  "changeDurationAll v p = changeDurationAll_loop v (m_vEvents p) p"

text \<open>
  \<^verbatim>\<open>Pattern::setStepsPerBeat\<close>.  The scale factor computed in the \<^verbatim>\<open>else\<close> branch is
  a new local variable of that branch; the outer \<open>fScale\<close> keeps the value 1.  The
  loop that moves the events runs over copies.
\<close>

fun move_events_loop :: "real \<Rightarrow> StepEvent list \<Rightarrow> Pattern \<Rightarrow> Pattern" where
  "move_events_loop fScale [] p = p"
| "move_events_loop fScale (ev # rest) p =
     (let ev' = ev\<lparr>getPosition := float_to_u32 (to_float (getPosition ev) * fScale)\<rparr>;
          ev'' = ev'\<lparr>getDuration := getDuration ev' * fScale\<rparr>
      in move_events_loop fScale rest p)"

definition setStepsPerBeat :: "u32 \<Rightarrow> Pattern \<Rightarrow> bool \<times> Pattern" where
  "setStepsPerBeat v p =
     (let fScale = 1;
          p1 = (if m_nStepsPerBeat p = 0 \<or> m_nStepsPerBeat p > 24
                then p\<lparr>m_nStepsPerBeat := 4\<rparr>
                else (let fScale_inner = to_float v / to_float (m_nStepsPerBeat p) in p))
      in if v \<in> {1, 2, 3, 4, 6, 8, 12, 24}
         then (let p2 = p1\<lparr>m_nStepsPerBeat := v\<rparr>
               in (True, move_events_loop fScale (m_vEvents p2) p2))
         else (False, p1))"

text \<open>
  \<^verbatim>\<open>Pattern::setBeatsInPattern\<close>: the vector is cut at the first event at or past
  the end of the pattern.
\<close>

fun first_past_end :: "u32 \<Rightarrow> StepEvent list \<Rightarrow> nat" where
  "first_past_end limit [] = 0"
| "first_past_end limit (e # es) =
     (if getPosition e \<ge> limit then 0 else Suc (first_past_end limit es))"

definition setBeatsInPattern :: "u32 \<Rightarrow> Pattern \<Rightarrow> Pattern" where
  "setBeatsInPattern beats p =
     (let p1 = (if beats > 0 then p\<lparr>m_nBeats := beats\<rparr> else p);
          nIndex = first_past_end (getSteps p1) (m_vEvents p1)
      in p1\<lparr>m_vEvents := take nIndex (m_vEvents p1)\<rparr>)"

text \<open>
  \<^verbatim>\<open>Pattern::transpose\<close>.  The first loop returns as soon as one note would leave
  \<open>0..127\<close>.  The second loop works through an iterator, so it does change the
  stored events.  Its \<^verbatim>\<open>erase(it)\<close> branch leaves the iterator on the element that
  followed, which the loop's \<^verbatim>\<open>++it\<close> then steps over; erasing the last element
  would move the iterator past the end of the vector, which is undefined and is
  the value \<open>None\<close> here.  The sum \<^verbatim>\<open>getValue1start() + value\<close> is an \<^verbatim>\<open>int\<close>.
\<close>

fun out_of_range :: "int \<Rightarrow> StepEvent list \<Rightarrow> bool" where
  "out_of_range v [] = False"
| "out_of_range v (ev # rest) =
     (if getCommand ev \<noteq> MIDI_NOTE_ON then out_of_range v rest
      else let note = uint (getValue1start ev) + v
           in if note > 127 \<or> note < 0 then True else out_of_range v rest)"

fun transpose_loop :: "int \<Rightarrow> StepEvent list \<Rightarrow> StepEvent list option" where
  "transpose_loop v [] = Some []"
| "transpose_loop v (ev # rest) =
     (if getCommand ev \<noteq> MIDI_NOTE_ON then map_option ((#) ev) (transpose_loop v rest)
      else let note = uint (getValue1start ev) + v
           in if note > 127 \<or> note < 0
              then (case rest of
                      [] \<Rightarrow> None
                    | nxt # rest' \<Rightarrow> map_option ((#) nxt) (transpose_loop v rest'))
              else map_option
                     ((#) (ev\<lparr>getValue1start := int_to_u8 note, getValue1end := int_to_u8 note\<rparr>))
                     (transpose_loop v rest))"

definition transpose :: "int \<Rightarrow> Pattern \<Rightarrow> Pattern option" where
  "transpose v p =
     (if out_of_range v (m_vEvents p) then Some p
      else map_option (\<lambda>evs. p\<lparr>m_vEvents := evs\<rparr>) (transpose_loop v (m_vEvents p)))"

section \<open>Transport and timebase driver\<close>

text \<open>
  The globals of \<^verbatim>\<open>zynseq.cpp\<close> that the timebase callback reads and writes.  The
  play states are constants of a header that is not among the sources; they are
  the states named in section 3 of the spec.
\<close>

datatype play_state = STOPPED | STARTING | PLAYING | STOPPING

record transport =
  g_nSampleRate :: u32
  g_dTempo :: real
  g_dFramesPerClock :: real
  g_fBeatsPerBar :: real
  g_fBeatType :: real
  g_bTimebaseChanged :: bool
  g_nBar :: u32
  g_nBeat :: u32
  g_nTick :: u32
  g_nFramesToNextClock :: u32
  g_nClock :: u8
  g_nSongStatus :: play_state
  g_nSongPosition :: u32
  g_nSongLength :: u32
  g_bPlaying :: bool

definition g_dTicksPerBeat :: real where
  "g_dTicksPerBeat = 1920"

definition g_dTicksPerClock :: real where
  "g_dTicksPerClock = g_dTicksPerBeat / 24"

text \<open>
  \<^verbatim>\<open>getFramesPerTick\<close>: the product \<^verbatim>\<open>60 * g_nSampleRate\<close> is formed in unsigned 32-bit
  arithmetic before the division in floating point.  (A division by a zero tempo
  gives infinity in C++ and 0 in HOL; the theorems exclude it.)
\<close>

definition getFramesPerTick :: "transport \<Rightarrow> real \<Rightarrow> real" where
  "getFramesPerTick st dTempo = to_float (60 * g_nSampleRate st) / (dTempo * g_dTicksPerBeat)"

definition getFramesPerClock :: "transport \<Rightarrow> real \<Rightarrow> real" where
  "getFramesPerClock st dTempo = getFramesPerTick st dTempo * g_dTicksPerClock"

text \<open>
  Modelled from the spec: \<^verbatim>\<open>TimebaseEvent\<close> is declared in \<^verbatim>\<open>timebase.h\<close>, which is not
  among the sources.  An event has a bar, a clock within the bar, a type and a
  16-bit value: beats per minute for a tempo event, beats per bar in the high byte
  for a time signature.
\<close>

datatype timebase_type = TIMEBASE_TYPE_TEMPO | TIMEBASE_TYPE_TIMESIG

record TimebaseEvent =
  tb_bar :: u16
  tb_clock :: u32
  tb_type :: timebase_type
  tb_value :: u16

text \<open>
  The body of the first loop of \<^verbatim>\<open>onJackTimebase\<close> for one due event.  The writes to
  the host's position structure are not part of the transport state.
\<close>

definition timebase_event :: "TimebaseEvent \<Rightarrow> transport \<Rightarrow> transport" where
  "timebase_event e st =
     (case tb_type e of
        TIMEBASE_TYPE_TEMPO \<Rightarrow>
          (let st1 = st\<lparr>g_dTempo := real (unat (tb_value e))\<rparr>;
               st2 = st1\<lparr>g_dFramesPerClock := getFramesPerClock st1 (g_dTempo st1)\<rparr>
           in st2\<lparr>g_bTimebaseChanged := True\<rparr>)
      | TIMEBASE_TYPE_TIMESIG \<Rightarrow>
          st\<lparr>g_fBeatsPerBar := real (unat (drop_bit 8 (tb_value e))),
             g_fBeatType := real (unat (and (tb_value e) 0x0F)),
             g_bTimebaseChanged := True\<rparr>)"

text \<open>
  The loop itself.  The cursor \<^verbatim>\<open>g_pNextTimebaseEvent\<close> is the list of the events not
  yet consumed: its head is the next event, \<^verbatim>\<open>getNextTimebaseEvent\<close> is the tail and
  the empty list is the null pointer (or a null \<^verbatim>\<open>g_pTimebase\<close>, with which the loop
  does not run either).  The 16-bit bar of the event is compared with the 32-bit
  bar counter.  The result is the cursor and the state after the loop.
\<close>

fun process_timebase_events :: "TimebaseEvent list \<Rightarrow> transport \<Rightarrow> TimebaseEvent list \<times> transport" where
  "process_timebase_events [] st = ([], st)"
| "process_timebase_events (e # rest) st =
     (if unat (tb_bar e) \<le> unat (g_nBar st)
      then process_timebase_events rest (timebase_event e st)
      else (e # rest, st))"

text \<open>
  One iteration of the clock loop of \<^verbatim>\<open>onJackTimebase\<close>, run while the transport is
  rolling and \<^verbatim>\<open>g_nFramesToNextClock < nRemainingFrames\<close>.  \<open>playing\<close> is the value
  that \<^verbatim>\<open>PatternManager::clock\<close> returns for this pulse.  The result is the sync
  flag handed to the pattern manager, the frames that remain in the period and
  the state.
\<close>

definition on_beat :: "transport \<Rightarrow> bool \<times> transport" where
  "on_beat st =
     (let bSync = (g_nBeat st = 1);
          st1 = st\<lparr>g_nTick := float_to_u32 (g_dTicksPerBeat * to_float (g_nBeat st - 1))\<rparr>;
          st2 = (if g_nSongStatus st1 = PLAYING
                 then (let st' = st1\<lparr>g_nSongPosition := g_nSongPosition st1 + 1\<rparr>
                       in if g_nSongPosition st' > g_nSongLength st'
                          then st'\<lparr>g_nSongStatus := STOPPED\<rparr> else st')
                 else st1);
          st3 = (if bSync \<and> g_nSongStatus st2 = STARTING
                 then st2\<lparr>g_nSongStatus := PLAYING\<rparr> else st2)
      in (bSync, st3))"

definition next_clock :: "transport \<Rightarrow> transport" where
  "next_clock st =
     (let st1 = st\<lparr>g_nClock := g_nClock st + 1\<rparr>
      in if g_nClock st1 > 23
         then (let st2 = st1\<lparr>g_nClock := 0\<rparr>;
                   st3 = st2\<lparr>g_nBeat := g_nBeat st2 + 1\<rparr>
               in if to_float (g_nBeat st3) > g_fBeatsPerBar st3
                  then (let st4 = st3\<lparr>g_nBeat := 1\<rparr>
                        in if g_nSongStatus st4 = PLAYING
                           then st4\<lparr>g_nBar := g_nBar st4 + 1\<rparr> else st4)
                  else st3)
         else st1)"

definition clock_pulse :: "bool \<Rightarrow> u32 \<Rightarrow> transport \<Rightarrow> bool \<times> u32 \<times> transport" where
  "clock_pulse playing nRemainingFrames st =
     (let (bSync, st1) = (if g_nClock st = 0 then on_beat st else (False, st));
          st2 = st1\<lparr>g_bPlaying := playing\<rparr>;
          nRemainingFrames' = nRemainingFrames - g_nFramesToNextClock st2;
          st3 = st2\<lparr>g_nFramesToNextClock := float_to_u32 (g_dFramesPerClock st2)\<rparr>
      in (bSync, nRemainingFrames', next_clock st3))"

section \<open>Schedule and its drain\<close>

text \<open>
  \<^verbatim>\<open>g_mSchedule\<close> is a \<^verbatim>\<open>std::map\<close> from frame to a pointer to a MIDI message.  It is
  the list of its entries in the order in which the map is iterated, that is by
  ascending frame; a null pointer is \<open>None\<close>.
\<close>

record MIDI_MESSAGE =
  command :: u8
  value1 :: u8
  value2 :: u8

type_synonym schedule = "(u32 \<times> MIDI_MESSAGE option) list"

text \<open>
  The drain loop of \<^verbatim>\<open>onJackProcess\<close>.  \<open>cap\<close> is the number of three-byte events
  that \<^verbatim>\<open>jack_midi_event_reserve\<close> still grants; after that it returns null.
  \<open>passed\<close> holds the entries that the iterator has passed, whose messages are
  deleted and whose pointers are null.  The result is the list of the events
  written to the output buffer, each with its offset in the period and its bytes
  (\<open>None\<close> where a null entry leaves the reserved bytes unwritten), and the schedule
  after the call: the \<^verbatim>\<open>break\<close> statements and the end of the loop reach
  \<^verbatim>\<open>erase(begin, it)\<close>, the \<^verbatim>\<open>return\<close> for an event bumped past the period does
  not.
\<close>

fun drain_loop :: "u32 \<Rightarrow> u32 \<Rightarrow> nat \<Rightarrow> u32 \<Rightarrow> schedule \<Rightarrow> schedule
    \<Rightarrow> (u32 \<times> MIDI_MESSAGE option) list \<times> schedule" where
  "drain_loop nNow nFrames cap nNextTime passed [] = ([], [])"
| "drain_loop nNow nFrames cap nNextTime passed ((first, second) # rest) =
     (if first \<ge> nNow + nFrames then ([], (first, second) # rest)
      else let nTime = (if first < nNow then nNextTime else first - nNow);
               nTime = (if nTime < nNextTime then nNextTime else nTime)
           in if nTime \<ge> nFrames then ([], passed @ (first, second) # rest)
              else if cap = 0 then ([], (first, second) # rest)
              else let (out, sched) =
                         drain_loop nNow nFrames (cap - 1) (nTime + 1)
                           (passed @ [(first, None)]) rest
                   in ((nTime, second) # out, sched))"

definition drain :: "u32 \<Rightarrow> u32 \<Rightarrow> nat \<Rightarrow> schedule \<Rightarrow> (u32 \<times> MIDI_MESSAGE option) list \<times> schedule" where
  "drain nNow nFrames cap sched =
     (if sched = [] then ([], sched) else drain_loop nNow nFrames cap 0 [] sched)"

text \<open>
  \<^verbatim>\<open>sendMidiMsg\<close> stores a message at the first frame, counted from 0, that has no
  entry: every message sent this way is scheduled for frame 0, as soon as
  possible, and moves to the next free frame on a collision.  The search loop
  does not end if every frame has an entry; that is the value \<open>None\<close>.
  \<open>map_store\<close> is the assignment \<^verbatim>\<open>g_mSchedule[time] = pMsg\<close>, which keeps the entries
  in the order of their frames.  The busy wait on \<^verbatim>\<open>g_bMutex\<close> has no counterpart in
  a model with one thread.
\<close>

partial_function (option) first_free_slot :: "schedule \<Rightarrow> u32 \<Rightarrow> u32 option" where
  "first_free_slot sched time =
     (if time \<in> set (map fst sched) then first_free_slot sched (time + 1) else Some time)"

fun map_store :: "u32 \<Rightarrow> MIDI_MESSAGE option \<Rightarrow> schedule \<Rightarrow> schedule" where
  "map_store k v [] = [(k, v)]"
| "map_store k v ((k', v') # rest) =
     (if k < k' then (k, v) # (k', v') # rest
      else if k = k' then (k, v) # rest
      else (k', v') # map_store k v rest)"

definition sendMidiMsg :: "MIDI_MESSAGE \<Rightarrow> schedule \<Rightarrow> schedule option" where
  "sendMidiMsg pMsg sched =
     (case first_free_slot sched 0 of
        None \<Rightarrow> None
      | Some time \<Rightarrow> Some (map_store time (Some pMsg) sched))"

section \<open>Properties named by the claims\<close>

text \<open>
  What the transposition claim says of one event: a note-on event has its note
  moved by \<open>v\<close>, any other event is left as it is.
\<close>

definition transposed :: "int \<Rightarrow> StepEvent \<Rightarrow> StepEvent" where
  "transposed v ev =
     (if getCommand ev = MIDI_NOTE_ON
      then ev\<lparr>getValue1start := int_to_u8 (uint (getValue1start ev) + v),
              getValue1end := int_to_u8 (uint (getValue1start ev) + v)\<rparr>
      else ev)"

text \<open>A note-on event whose note stays within \<open>0..127\<close> when moved by \<open>v\<close>.\<close>

definition stays_in_range :: "int \<Rightarrow> StepEvent \<Rightarrow> bool" where
  "stays_in_range v ev =
     (getCommand ev = MIDI_NOTE_ON \<longrightarrow>
        0 \<le> uint (getValue1start ev) + v \<and> uint (getValue1start ev) + v \<le> 127)"

text \<open>Every stored event lies before the end of the pattern.\<close>

definition in_range :: "Pattern \<Rightarrow> bool" where
  "in_range p = list_all (\<lambda>ev. getPosition ev < getSteps p) (m_vEvents p)"

text \<open>
  The frames per clock agree with the tempo: the formula of the spec, for a tempo
  of at least one beat per minute.
\<close>

definition tempo_consistent :: "transport \<Rightarrow> bool" where
  "tempo_consistent st =
     (g_dTempo st \<ge> 1
      \<and> g_dFramesPerClock st = 60 * real (unat (g_nSampleRate st)) / (g_dTempo st * 24))"

definition tempo_nonzero :: "TimebaseEvent \<Rightarrow> bool" where
  "tempo_nonzero e = (tb_type e = TIMEBASE_TYPE_TEMPO \<longrightarrow> tb_value e \<noteq> 0)"

subsection \<open>Concrete inputs\<close>

definition empty_pattern :: Pattern where
  "empty_pattern = \<lparr> m_nBeats = 4, m_nStepsPerBeat = 4, m_vEvents = [] \<rparr>"

definition huge_pattern :: Pattern where
  "huge_pattern = \<lparr> m_nBeats = 0x40000000, m_nStepsPerBeat = 4, m_vEvents = [] \<rparr>"

definition long_note_pattern :: Pattern where
  "long_note_pattern =
     \<lparr> m_nBeats = 4, m_nStepsPerBeat = 4,
       m_vEvents = [StepEvent_new 0 MIDI_NOTE_ON 60 80 8] \<rparr>"

definition rescale_pattern :: Pattern where
  "rescale_pattern =
     \<lparr> m_nBeats = 4, m_nStepsPerBeat = 4,
       m_vEvents = [StepEvent_new 4 MIDI_NOTE_ON 60 100 2] \<rparr>"

definition chord_pattern :: Pattern where
  "chord_pattern =
     \<lparr> m_nBeats = 4, m_nStepsPerBeat = 4,
       m_vEvents = [StepEvent_new 0 MIDI_NOTE_ON 60 100 1, StepEvent_new 1 MIDI_CONTROL 7 100 1,
                    StepEvent_new 2 MIDI_NOTE_ON 120 100 1] \<rparr>"

definition melody_pattern :: Pattern where
  "melody_pattern =
     \<lparr> m_nBeats = 4, m_nStepsPerBeat = 4,
       m_vEvents = [StepEvent_new 0 MIDI_NOTE_ON 60 100 1, StepEvent_new 1 MIDI_CONTROL 7 100 1,
                    StepEvent_new 9 MIDI_NOTE_ON 64 100 1] \<rparr>"

definition end_of_bar :: transport where
  "end_of_bar =
     \<lparr> g_nSampleRate = 48000, g_dTempo = 120, g_dFramesPerClock = 1000,
       g_fBeatsPerBar = 4, g_fBeatType = 4, g_bTimebaseChanged = False,
       g_nBar = 1, g_nBeat = 4, g_nTick = 0, g_nFramesToNextClock = 0,
       g_nClock = 23, g_nSongStatus = STOPPED, g_nSongPosition = 0,
       g_nSongLength = 0, g_bPlaying = True \<rparr>"

definition fast_transport :: transport where
  "fast_transport = end_of_bar\<lparr> g_nSampleRate := 71582789 \<rparr>"

definition tempo_60 :: TimebaseEvent where
  "tempo_60 = \<lparr> tb_bar = 1, tb_clock = 0, tb_type = TIMEBASE_TYPE_TEMPO, tb_value = 60 \<rparr>"

definition note_msg :: "u8 \<Rightarrow> MIDI_MESSAGE" where
  "note_msg n = \<lparr> command = 0x90, value1 = n, value2 = 100 \<rparr>"

definition late_schedule :: schedule where
  "late_schedule = [(5, Some (note_msg 60)), (6, Some (note_msg 62)), (7, Some (note_msg 64))]"

section \<open>Pattern operations\<close>

subsection \<open>Loops over copies\<close>

lemma setNoteVelocity_loop_id: "setNoteVelocity_loop step n velocity evs p = p"
  by (induction evs) (simp_all add: Let_def)

lemma changeVelocityAll_loop_id: "changeVelocityAll_loop v evs p = p"
  by (induction evs) (simp_all add: Let_def)

lemma changeDurationAll_loop_id: "changeDurationAll_loop v evs p = p"
  by (induction evs) (simp_all add: Let_def)

lemma move_events_loop_id: "move_events_loop f evs p = p"
  by (induction evs) (simp_all add: Let_def)

text \<open>
  Claim C10: \<^verbatim>\<open>setNoteVelocity\<close>, \<^verbatim>\<open>changeVelocityAll\<close> and \<^verbatim>\<open>changeDurationAll\<close> leave
  the pattern as it was, so every stored event keeps its position, duration,
  velocity and values: the setters are applied to copies of the events.  This
  holds for every velocity, in range or not.
\<close>

theorem copies_leave_pattern:
  "setNoteVelocity step n velocity p = p
   \<and> changeVelocityAll dv p = p
   \<and> changeDurationAll dd p = p"
  by (simp add: setNoteVelocity_def changeVelocityAll_def changeDurationAll_def
      setNoteVelocity_loop_id changeVelocityAll_loop_id changeDurationAll_loop_id)

subsection \<open>Adding events\<close>

lemma set_erase_overlapping: "set (erase_overlapping pos c v d evs) \<subseteq> set evs"
  by (induction evs) auto

lemma set_erase_first: "set (erase_first pos c v evs) \<subseteq> set evs"
  by (induction evs) auto

lemma insert_index_le: "insert_index pos evs \<le> length evs"
  by (induction evs) auto

lemma set_addEvent:
  "set (m_vEvents (snd (addEvent pos c v1 v2 d p))) =
     insert (StepEvent_new pos c v1 v2 d) (set (erase_overlapping pos c v1 d (m_vEvents p)))"
proof -
  let ?evs = "erase_overlapping pos c v1 d (m_vEvents p)"
  let ?i = "insert_index pos ?evs"
  have "set (take ?i ?evs) \<union> set (drop ?i ?evs) = set ?evs"
    by (metis append_take_drop_id set_append)
  then show ?thesis by (simp add: addEvent_def Let_def)
qed

lemma addEvent_steps: "getSteps (snd (addEvent pos c v1 v2 d p)) = getSteps p"
  by (simp add: addEvent_def Let_def getSteps_def)

lemma filter_erase_overlapping:
  "filter (\<lambda>e. getCommand e \<noteq> c \<or> getValue1start e \<noteq> v) (erase_overlapping pos c v d evs)
     = filter (\<lambda>e. getCommand e \<noteq> c \<or> getValue1start e \<noteq> v) evs"
  by (induction evs) auto

lemma filter_addEvent:
  "filter (\<lambda>e. getCommand e \<noteq> c \<or> getValue1start e \<noteq> v1)
       (m_vEvents (snd (addEvent pos c v1 v2 d p)))
     = filter (\<lambda>e. getCommand e \<noteq> c \<or> getValue1start e \<noteq> v1) (m_vEvents p)"
proof -
  let ?other = "\<lambda>e. getCommand e \<noteq> c \<or> getValue1start e \<noteq> v1"
  let ?evs = "erase_overlapping pos c v1 d (m_vEvents p)"
  let ?i = "insert_index pos ?evs"
  have "filter ?other (take ?i ?evs @ StepEvent_new pos c v1 v2 d # drop ?i ?evs)
        = filter ?other (take ?i ?evs) @ filter ?other (drop ?i ?evs)"
    by (simp add: StepEvent_new_def)
  also have "\<dots> = filter ?other (take ?i ?evs @ drop ?i ?evs)" by (simp only: filter_append)
  also have "\<dots> = filter ?other ?evs" by (simp only: append_take_drop_id)
  also have "\<dots> = filter ?other (m_vEvents p)" by (rule filter_erase_overlapping)
  finally show ?thesis by (simp add: addEvent_def Let_def)
qed

lemma addEvent_fields:
  "m_nBeats (snd (addEvent pos c v1 v2 d p)) = m_nBeats p"
  "m_nStepsPerBeat (snd (addEvent pos c v1 v2 d p)) = m_nStepsPerBeat p"
  by (simp_all add: addEvent_def Let_def)

lemma getSteps_exact:
  assumes "unat (m_nBeats p) * unat (m_nStepsPerBeat p) < 2 ^ 32"
  shows "(step \<ge> getSteps p) = (unat step \<ge> unat (m_nBeats p) * unat (m_nStepsPerBeat p))"
proof -
  have "unat (m_nBeats p) * unat (m_nStepsPerBeat p) < 2 ^ LENGTH(32)" using assms by simp
  then have "unat (getSteps p) = unat (m_nBeats p) * unat (m_nStepsPerBeat p)"
    unfolding getSteps_def using unat_mult_lem[of "m_nBeats p" "m_nStepsPerBeat p"] by simp
  then show ?thesis by (simp add: word_le_nat_alt)
qed

text \<open>
  Claim C7 as it is stated fails where the product of beats and steps per beat
  does not fit 32 bits: with \<open>2^30\<close> beats of 4 steps the product wraps to 0, and
  \<^verbatim>\<open>addNote\<close> refuses step 0 with note 60 and velocity 100, although the step is
  below \<open>beats \<times> steps_per_beat\<close> and the note and the velocity are in range.
\<close>

theorem addNote_wrap_counterexample:
  "unat (0::u32) < unat (m_nBeats huge_pattern) * unat (m_nStepsPerBeat huge_pattern)
   \<and> \<not> (60::u8) > 127 \<and> \<not> (100::u8) > 127
   \<and> addNote 0 60 100 1 huge_pattern = (False, huge_pattern)"
  by (simp add: huge_pattern_def addNote_def getSteps_def)

text \<open>
  Claim C7, amended: \<^verbatim>\<open>addNote\<close> returns false and leaves the pattern unchanged
  exactly when the step is at or past \<open>beats \<times> steps_per_beat\<close> as the code computes
  it, in unsigned 32-bit arithmetic, or the note or the velocity is above 127;
  that product is the product of the two numbers whenever it is below \<open>2^32\<close>.
  Otherwise it returns true and adds the note event: the pattern then holds the
  new event, every event it holds besides is one it held before, the events of
  any other command or note are all kept, in their order, and the beats and the
  steps per beat are unchanged.  (Which of the stored events of the same note
  make way for the new one is the overlap test of \<^verbatim>\<open>addEvent\<close>.)
\<close>

theorem addNote_result:
  "((\<not> fst (addNote step n velocity duration p) \<and> snd (addNote step n velocity duration p) = p)
      \<longleftrightarrow> (step \<ge> getSteps p \<or> n > 127 \<or> velocity > 127))
   \<and> (unat (m_nBeats p) * unat (m_nStepsPerBeat p) < 2 ^ 32 \<longrightarrow>
        (step \<ge> getSteps p) = (unat step \<ge> unat (m_nBeats p) * unat (m_nStepsPerBeat p)))
   \<and> (\<not> (step \<ge> getSteps p \<or> n > 127 \<or> velocity > 127) \<longrightarrow>
        fst (addNote step n velocity duration p)
        \<and> StepEvent_new step MIDI_NOTE_ON n velocity duration
            \<in> set (m_vEvents (snd (addNote step n velocity duration p)))
        \<and> set (m_vEvents (snd (addNote step n velocity duration p)))
            \<subseteq> insert (StepEvent_new step MIDI_NOTE_ON n velocity duration) (set (m_vEvents p))
        \<and> filter (\<lambda>e. getCommand e \<noteq> MIDI_NOTE_ON \<or> getValue1start e \<noteq> n)
              (m_vEvents (snd (addNote step n velocity duration p)))
            = filter (\<lambda>e. getCommand e \<noteq> MIDI_NOTE_ON \<or> getValue1start e \<noteq> n) (m_vEvents p)
        \<and> m_nBeats (snd (addNote step n velocity duration p)) = m_nBeats p
        \<and> m_nStepsPerBeat (snd (addNote step n velocity duration p)) = m_nStepsPerBeat p)"
proof (intro conjI impI)
  show "(\<not> fst (addNote step n velocity duration p) \<and> snd (addNote step n velocity duration p) = p)
      \<longleftrightarrow> (step \<ge> getSteps p \<or> n > 127 \<or> velocity > 127)"
    by (auto simp: addNote_def)
next
  assume "unat (m_nBeats p) * unat (m_nStepsPerBeat p) < 2 ^ 32"
  then show "(step \<ge> getSteps p) = (unat step \<ge> unat (m_nBeats p) * unat (m_nStepsPerBeat p))"
    by (rule getSteps_exact)
next
  assume ok: "\<not> (step \<ge> getSteps p \<or> n > 127 \<or> velocity > 127)"
  then have r: "addNote step n velocity duration p
      = (True, snd (addEvent step MIDI_NOTE_ON n velocity duration p))"
    by (simp add: addNote_def)
  show "fst (addNote step n velocity duration p)" by (simp add: r)
  show "StepEvent_new step MIDI_NOTE_ON n velocity duration
            \<in> set (m_vEvents (snd (addNote step n velocity duration p)))"
    by (simp add: r set_addEvent)
  show "set (m_vEvents (snd (addNote step n velocity duration p)))
            \<subseteq> insert (StepEvent_new step MIDI_NOTE_ON n velocity duration) (set (m_vEvents p))"
    using set_erase_overlapping[of step MIDI_NOTE_ON n duration "m_vEvents p"]
    by (auto simp: r set_addEvent)
  show "filter (\<lambda>e. getCommand e \<noteq> MIDI_NOTE_ON \<or> getValue1start e \<noteq> n)
              (m_vEvents (snd (addNote step n velocity duration p)))
            = filter (\<lambda>e. getCommand e \<noteq> MIDI_NOTE_ON \<or> getValue1start e \<noteq> n) (m_vEvents p)"
    by (simp only: r snd_conv filter_addEvent)
  show "m_nBeats (snd (addNote step n velocity duration p)) = m_nBeats p"
    by (simp add: r addEvent_fields)
  show "m_nStepsPerBeat (snd (addNote step n velocity duration p)) = m_nStepsPerBeat p"
    by (simp add: r addEvent_fields)
qed

text \<open>
  The theorem on a pattern of 16 steps with the notes 60 and 64 and a controller:
  note 62 at step 3 is added and the three stored events are kept; at step 16 it
  is refused.
\<close>

theorem addNote_result_witness:
  "unat (m_nBeats melody_pattern) * unat (m_nStepsPerBeat melody_pattern) < 2 ^ 32
   \<and> \<not> (3 \<ge> getSteps melody_pattern \<or> (62::u8) > 127 \<or> (100::u8) > 127)
   \<and> fst (addNote 3 62 100 1 melody_pattern)
   \<and> StepEvent_new 3 MIDI_NOTE_ON 62 100 1 \<in> set (m_vEvents (snd (addNote 3 62 100 1 melody_pattern)))
   \<and> filter (\<lambda>e. getCommand e \<noteq> MIDI_NOTE_ON \<or> getValue1start e \<noteq> 62)
        (m_vEvents (snd (addNote 3 62 100 1 melody_pattern))) = m_vEvents melody_pattern
   \<and> 16 \<ge> getSteps melody_pattern
   \<and> \<not> fst (addNote 16 62 100 1 melody_pattern)
   \<and> snd (addNote 16 62 100 1 melody_pattern) = melody_pattern"
proof -
  have h0: "unat (m_nBeats melody_pattern) * unat (m_nStepsPerBeat melody_pattern) < 2 ^ 32"
    by (simp add: melody_pattern_def)
  have h: "\<not> (3 \<ge> getSteps melody_pattern \<or> (62::u8) > 127 \<or> (100::u8) > 127)"
    by (simp add: getSteps_def melody_pattern_def)
  have g: "16 \<ge> getSteps melody_pattern"
    by (simp add: getSteps_def melody_pattern_def)
  have f: "filter (\<lambda>e. getCommand e \<noteq> MIDI_NOTE_ON \<or> getValue1start e \<noteq> 62)
      (m_vEvents melody_pattern) = m_vEvents melody_pattern"
    by (simp add: melody_pattern_def StepEvent_new_def MIDI_NOTE_ON_def MIDI_CONTROL_def)
  show ?thesis
    using h0 h g addNote_result[of 3 62 100 1 melody_pattern]
      addNote_result[of 16 62 100 1 melody_pattern]
    unfolding f by blast
qed

text \<open>The pattern after the addition of the witness, evaluated.\<close>

lemma addNote_example:
  "addNote 3 62 100 1 melody_pattern =
     (True, melody_pattern\<lparr>m_vEvents :=
        [StepEvent_new 0 MIDI_NOTE_ON 60 100 1, StepEvent_new 1 MIDI_CONTROL 7 100 1,
         StepEvent_new 3 MIDI_NOTE_ON 62 100 1, StepEvent_new 9 MIDI_NOTE_ON 64 100 1]\<rparr>)"
  by (simp add: addNote_def addEvent_def melody_pattern_def getSteps_def Let_def
      bOverlap_def to_float_def StepEvent_new_def MIDI_NOTE_ON_def MIDI_CONTROL_def)

text \<open>
  Claim C2: adding an event removes every stored event with the same command and
  first value whose time range overlaps the new interval.  The overlap test of
  \<^verbatim>\<open>addEvent\<close> asks whether the stored event starts or ends inside the new interval,
  so a stored event that starts before the new one and ends after it is kept.  A
  note 60 of 8 steps at step 0 survives the addition of a note 60 of 2 steps at
  step 2, although the ranges \<open>[0, 8)\<close> and \<open>[2, 4)\<close> overlap.
\<close>

theorem addNote_keeps_enclosing_note:
  "addNote 2 60 100 2 long_note_pattern =
     (True, long_note_pattern\<lparr>m_vEvents :=
        [StepEvent_new 0 MIDI_NOTE_ON 60 80 8, StepEvent_new 2 MIDI_NOTE_ON 60 100 2]\<rparr>)"
  by (simp add: addNote_def addEvent_def long_note_pattern_def getSteps_def Let_def
      bOverlap_def to_float_def StepEvent_new_def MIDI_NOTE_ON_def)

text \<open>
  The scenario of the spec, where the stored note ends inside the new interval:
  after a note 60 of 4 steps at step 0 and a note 60 of 4 steps at step 2, only
  the second note is stored.
\<close>

lemma addNote_replaces_overlapped_note:
  "snd (addNote 2 60 100 4 (snd (addNote 0 60 80 4 empty_pattern))) =
     empty_pattern\<lparr>m_vEvents := [StepEvent_new 2 MIDI_NOTE_ON 60 100 4]\<rparr>"
  by (simp add: addNote_def addEvent_def empty_pattern_def getSteps_def Let_def
      bOverlap_def to_float_def StepEvent_new_def MIDI_NOTE_ON_def)

subsection \<open>Steps per beat\<close>

text \<open>
  Claim C3: \<^verbatim>\<open>setStepsPerBeat\<close> scales the position and the duration of every stored
  event by the ratio of the new to the old value.  In the code the factor is
  assigned to a variable local to a branch and the events are scaled on copies,
  so the stored events do not move: the event at position 4 with duration 2
  under 4 steps per beat is still at position 4 with duration 2 after
  \<^verbatim>\<open>setStepsPerBeat(8)\<close>, where the claim expects position 8 and duration 4.
\<close>

theorem setStepsPerBeat_keeps_events:
  "setStepsPerBeat 8 rescale_pattern = (True, rescale_pattern\<lparr>m_nStepsPerBeat := 8\<rparr>)
   \<and> m_vEvents (snd (setStepsPerBeat 8 rescale_pattern)) = [StepEvent_new 4 MIDI_NOTE_ON 60 100 2]"
  by (simp add: setStepsPerBeat_def move_events_loop_id Let_def rescale_pattern_def)

subsection \<open>Transposition\<close>

lemma out_of_range_iff: "out_of_range v evs \<longleftrightarrow> \<not> list_all (stays_in_range v) evs"
  by (induction evs) (auto simp: stays_in_range_def Let_def)

lemma transpose_loop_in_range:
  "list_all (stays_in_range v) evs \<Longrightarrow> transpose_loop v evs = Some (map (transposed v) evs)"
  by (induction evs) (auto simp: stays_in_range_def transposed_def Let_def)

lemma uint_int_to_u8: "0 \<le> n \<Longrightarrow> n \<le> 127 \<Longrightarrow> uint (int_to_u8 n) = n"
  unfolding int_to_u8_def by (simp add: uint_word_of_int take_bit_int_eq_self)

text \<open>
  Claim C4: \<^verbatim>\<open>transpose\<close> is all or nothing.  If some note-on event would leave
  \<open>0..127\<close> the pattern is returned as it was; otherwise every note-on event has
  its note moved by \<open>v\<close> and no other event changes.  In both cases the call
  returns: the branch of the second loop that erases an event is never taken.
\<close>

theorem transpose_all_or_nothing:
  "(\<not> list_all (stays_in_range v) (m_vEvents p) \<longrightarrow> transpose v p = Some p)
   \<and> (list_all (stays_in_range v) (m_vEvents p) \<longrightarrow>
        transpose v p = Some (p\<lparr>m_vEvents := map (transposed v) (m_vEvents p)\<rparr>)
        \<and> (\<forall>ev \<in> set (m_vEvents p). getCommand ev = MIDI_NOTE_ON \<longrightarrow>
              uint (getValue1start (transposed v ev)) = uint (getValue1start ev) + v))"
proof (intro conjI impI ballI)
  assume "\<not> list_all (stays_in_range v) (m_vEvents p)"
  then show "transpose v p = Some p"
    by (simp add: transpose_def out_of_range_iff)
next
  assume ok: "list_all (stays_in_range v) (m_vEvents p)"
  then show "transpose v p = Some (p\<lparr>m_vEvents := map (transposed v) (m_vEvents p)\<rparr>)"
    by (simp add: transpose_def out_of_range_iff transpose_loop_in_range)
  fix ev assume "ev \<in> set (m_vEvents p)" and on: "getCommand ev = MIDI_NOTE_ON"
  with ok have "stays_in_range v ev" by (simp add: list_all_iff)
  with on show "uint (getValue1start (transposed v ev)) = uint (getValue1start ev) + v"
    by (simp add: stays_in_range_def transposed_def uint_int_to_u8)
qed

text \<open>
  The theorem at two inputs: moved by 12, the notes 60 and 64 of one pattern become
  72 and 76; the pattern with the notes 60 and 120 is left alone, since 132 is not
  a MIDI note.
\<close>

theorem transpose_all_or_nothing_witness:
  "list_all (stays_in_range 12) (m_vEvents melody_pattern)
   \<and> transpose 12 melody_pattern =
       Some (melody_pattern\<lparr>m_vEvents :=
         [(StepEvent_new 0 MIDI_NOTE_ON 72 100 1), StepEvent_new 1 MIDI_CONTROL 7 100 1,
          (StepEvent_new 9 MIDI_NOTE_ON 76 100 1)]\<rparr>)
   \<and> \<not> list_all (stays_in_range 12) (m_vEvents chord_pattern)
   \<and> transpose 12 chord_pattern = Some chord_pattern"
proof -
  have h: "list_all (stays_in_range 12) (m_vEvents melody_pattern)"
    by (simp add: melody_pattern_def stays_in_range_def StepEvent_new_def MIDI_NOTE_ON_def
        MIDI_CONTROL_def)
  have g: "\<not> list_all (stays_in_range 12) (m_vEvents chord_pattern)"
    by (simp add: chord_pattern_def stays_in_range_def StepEvent_new_def MIDI_NOTE_ON_def
        MIDI_CONTROL_def)
  have m: "map (transposed 12) (m_vEvents melody_pattern) =
      [(StepEvent_new 0 MIDI_NOTE_ON 72 100 1), StepEvent_new 1 MIDI_CONTROL 7 100 1,
       (StepEvent_new 9 MIDI_NOTE_ON 76 100 1)]"
    by (simp add: melody_pattern_def transposed_def StepEvent_new_def MIDI_NOTE_ON_def
        MIDI_CONTROL_def int_to_u8_def)
  show ?thesis
    using h g m transpose_all_or_nothing[of 12 melody_pattern]
      transpose_all_or_nothing[of 12 chord_pattern]
    by simp
qed

subsection \<open>Events lie inside the pattern\<close>

lemma addEvent_in_range:
  assumes "in_range p" and "pos < getSteps p"
  shows "in_range (snd (addEvent pos c v1 v2 d p))"
  using assms set_erase_overlapping[of pos c v1 d "m_vEvents p"]
  by (auto simp: in_range_def list_all_iff set_addEvent addEvent_steps StepEvent_new_def)

lemma removeProgramChange_in_range:
  "in_range p \<Longrightarrow> in_range (snd (removeProgramChange step p))"
  using set_erase_first[of step MIDI_PROGRAM "getProgramChange step p" "m_vEvents p"]
  by (auto simp: removeProgramChange_def Let_def deleteEvent_def in_range_def list_all_iff
      getSteps_def)

lemma removeProgramChange_steps: "getSteps (snd (removeProgramChange step p)) = getSteps p"
  by (simp add: removeProgramChange_def Let_def deleteEvent_def getSteps_def)

lemma addNote_in_range: "in_range p \<Longrightarrow> in_range (snd (addNote step n v d p))"
  by (simp add: addNote_def addEvent_in_range not_le)

lemma addProgramChange_in_range:
  "in_range p \<Longrightarrow> in_range (snd (addProgramChange dv dd step prog p))"
  by (simp add: addProgramChange_def addEvent_in_range removeProgramChange_in_range
      removeProgramChange_steps not_le)

lemma addControl_in_range:
  assumes "in_range p" and "step \<noteq> getSteps p"
  shows "in_range (addControl step c vs ve d p)"
proof (cases "step > getSteps p \<or> c > 127 \<or> vs > 127 \<or> ve > 127 \<or> d > to_float (getSteps p)")
  case True
  then show ?thesis using assms by (simp add: addControl_def Let_def)
next
  case False
  then have lt: "step < getSteps p" using assms(2) by auto
  obtain i p' where ap: "addEvent step MIDI_CONTROL c vs d p = (i, p')"
    by (cases "addEvent step MIDI_CONTROL c vs d p")
  have p': "p' = snd (addEvent step MIDI_CONTROL c vs d p)" using ap by simp
  have ir: "in_range p'" unfolding p' by (rule addEvent_in_range[OF assms(1) lt])
  have st: "getSteps p' = getSteps p" unfolding p' by (rule addEvent_steps)
  let ?evs = "erase_overlapping step MIDI_CONTROL c d (m_vEvents p)"
  let ?new = "(StepEvent_new step MIDI_CONTROL c vs d)\<lparr>getValue2end := ve\<rparr>"
  have i: "i = insert_index step ?evs" using ap by (simp add: addEvent_def Let_def)
  have ev: "m_vEvents p' = take i ?evs @ StepEvent_new step MIDI_CONTROL c vs d # drop i ?evs"
    using ap by (auto simp: addEvent_def Let_def)
  have len: "length (take i ?evs) = i" using insert_index_le[of step ?evs] i by simp
  have nth: "m_vEvents p' ! i = StepEvent_new step MIDI_CONTROL c vs d"
    unfolding ev using len by (metis nth_append_length)
  have res: "addControl step c vs ve d p = p'\<lparr>m_vEvents := (m_vEvents p')[i := ?new]\<rparr>"
    using False ap nth by (simp add: addControl_def Let_def)
  have "\<forall>e \<in> set ((m_vEvents p')[i := ?new]). getPosition e < getSteps p"
  proof
    fix e assume "e \<in> set ((m_vEvents p')[i := ?new])"
    then have "e = ?new \<or> e \<in> set (m_vEvents p')"
      using set_update_subset_insert by fastforce
    then show "getPosition e < getSteps p"
      using ir lt st by (auto simp: in_range_def list_all_iff StepEvent_new_def)
  qed
  then show ?thesis unfolding res using st
    by (simp add: in_range_def list_all_iff getSteps_def)
qed

lemma take_first_past_end:
  "list_all (\<lambda>ev. getPosition ev < limit) (take (first_past_end limit evs) evs)"
  by (induction evs) (auto simp: not_le)

lemma setBeatsInPattern_in_range: "in_range (setBeatsInPattern beats p)"
  using take_first_past_end[of "getSteps (if beats > 0 then p\<lparr>m_nBeats := beats\<rparr> else p)"
      "m_vEvents p"]
  by (auto simp: setBeatsInPattern_def Let_def in_range_def getSteps_def)

lemma setBeatsInPattern_steps:
  "beats > 0 \<Longrightarrow> getSteps (setBeatsInPattern beats p) = beats * m_nStepsPerBeat p"
  by (simp add: setBeatsInPattern_def Let_def getSteps_def)

text \<open>
  Claim C8 as it is stated fails at two inputs.  \<^verbatim>\<open>setBeatsInPattern(0)\<close> keeps the
  number of beats and the events, so the event at position 0 is not below
  \<open>0 \<times> steps_per_beat\<close>.  \<^verbatim>\<open>addControl\<close> refuses a step above the number of steps,
  not the step equal to it: in an empty pattern of 16 steps it stores an event at
  position 16.
\<close>

theorem position_bound_counterexample:
  "m_vEvents (setBeatsInPattern 0 long_note_pattern) = [StepEvent_new 0 MIDI_NOTE_ON 60 80 8]
   \<and> \<not> getPosition (StepEvent_new 0 MIDI_NOTE_ON 60 80 8) < 0 * m_nStepsPerBeat long_note_pattern
   \<and> m_vEvents (addControl 16 7 100 100 1 empty_pattern)
       = [(StepEvent_new 16 MIDI_CONTROL 7 100 1)\<lparr>getValue2end := 100\<rparr>]
   \<and> getSteps (addControl 16 7 100 100 1 empty_pattern) = 16
   \<and> \<not> in_range (addControl 16 7 100 100 1 empty_pattern)"
  by (simp add: setBeatsInPattern_def long_note_pattern_def getSteps_def Let_def
      StepEvent_new_def addControl_def addEvent_def empty_pattern_def to_float_def in_range_def)

text \<open>
  Claim C8, amended: if every stored event lies below \<open>beats \<times> steps_per_beat\<close> (the
  32-bit product), it still does after \<^verbatim>\<open>addNote\<close> and after \<^verbatim>\<open>addProgramChange\<close>,
  whether they succeed or not, and after \<^verbatim>\<open>addControl\<close> at a step other than
  \<open>beats \<times> steps_per_beat\<close>.  After \<^verbatim>\<open>setBeatsInPattern(b)\<close> every remaining event
  lies below the number of steps of the resulting pattern, which is
  \<open>b \<times> steps_per_beat\<close> when \<open>b > 0\<close>; for \<open>b = 0\<close> the number of beats is kept.
\<close>

theorem position_bound_preserved:
  "(in_range p \<longrightarrow>
      in_range (snd (addNote step n velocity duration p))
      \<and> in_range (snd (addProgramChange dflt_value2 dflt_duration step program p)))
   \<and> (in_range p \<and> step \<noteq> getSteps p \<longrightarrow>
        in_range (addControl step control valueStart valueEnd duration p))
   \<and> in_range (setBeatsInPattern beats p)
   \<and> (beats > 0 \<longrightarrow>
        list_all (\<lambda>ev. getPosition ev < beats * m_nStepsPerBeat p)
          (m_vEvents (setBeatsInPattern beats p)))"
proof (intro conjI impI)
  show "in_range (setBeatsInPattern beats p)" by (rule setBeatsInPattern_in_range)
  assume "beats > 0"
  then show "list_all (\<lambda>ev. getPosition ev < beats * m_nStepsPerBeat p)
      (m_vEvents (setBeatsInPattern beats p))"
    using setBeatsInPattern_in_range[of beats p] setBeatsInPattern_steps[of beats p]
    by (simp add: in_range_def)
qed (simp_all add: addNote_in_range addProgramChange_in_range addControl_in_range)

text \<open>
  The theorem on a pattern of 16 steps with events at the positions 0, 1 and 9:
  the three additions at step 3 keep the bound, and cutting the pattern to 2 beats
  leaves the events below step 8.
\<close>

theorem position_bound_preserved_witness:
  "in_range melody_pattern \<and> (3::u32) \<noteq> getSteps melody_pattern \<and> (2::u32) > 0
   \<and> in_range (snd (addNote 3 60 100 1 melody_pattern))
   \<and> in_range (snd (addProgramChange 0 1 3 5 melody_pattern))
   \<and> in_range (addControl 3 7 0 127 1 melody_pattern)
   \<and> in_range (setBeatsInPattern 2 melody_pattern)
   \<and> list_all (\<lambda>ev. getPosition ev < 2 * m_nStepsPerBeat melody_pattern)
        (m_vEvents (setBeatsInPattern 2 melody_pattern))"
proof -
  have h: "in_range melody_pattern"
    by (simp add: in_range_def melody_pattern_def getSteps_def StepEvent_new_def)
  have g: "(3::u32) \<noteq> getSteps melody_pattern"
    by (simp add: melody_pattern_def getSteps_def)
  have b: "(2::u32) > 0" by simp
  show ?thesis
    using h g b position_bound_preserved[of melody_pattern 3 60 100 1 0 1 5 7 0 127 2]
    by blast
qed

section \<open>Clock pulses\<close>

lemma on_beat_keeps:
  "g_nClock (snd (on_beat st)) = g_nClock st"
  "g_nBeat (snd (on_beat st)) = g_nBeat st"
  "g_nBar (snd (on_beat st)) = g_nBar st"
  "g_fBeatsPerBar (snd (on_beat st)) = g_fBeatsPerBar st"
  "g_dFramesPerClock (snd (on_beat st)) = g_dFramesPerClock st"
  "fst (on_beat st) = (g_nBeat st = 1)"
  by (simp_all add: on_beat_def Let_def)

lemma u8_succ:
  assumes "(c::8 word) < 24"
  shows "unat (c + 1) = unat c + 1"
proof -
  have "unat c < 24" using assms by (simp add: word_less_nat_alt)
  then have "unat c + unat (1::8 word) < 2 ^ LENGTH(8)" by simp
  then show ?thesis using unat_add_lem[of c 1] by simp
qed

lemma u8_succ_gt_23:
  assumes "(c::8 word) < 24"
  shows "(c + 1 > 23) = (c = 23)"
proof -
  have "(c + 1 > 23) = (unat c + 1 > 23)"
    using u8_succ[OF assms] by (simp add: word_less_nat_alt)
  also have "\<dots> = (unat c = 23)"
    using assms by (auto simp: word_less_nat_alt)
  also have "\<dots> = (c = 23)"
    by (simp add: word_unat_eq_iff)
  finally show ?thesis .
qed

lemma u8_succ_mod:
  assumes "(c::8 word) < 24"
  shows "unat (if c = 23 then 0 else c + 1) = (unat c + 1) mod 24"
proof (cases "c = 23")
  case True
  then show ?thesis by simp
next
  case False
  then have "unat c \<noteq> 23" using u8_succ_gt_23[OF assms] u8_succ[OF assms]
    by (simp add: word_less_nat_alt)
  moreover have "unat c < 24" using assms by (simp add: word_less_nat_alt)
  ultimately show ?thesis using False u8_succ[OF assms] by simp
qed

text \<open>
  Claim C5 as it is stated fails where no song is playing: at the last clock of
  the last beat of a bar, with the song status \<open>STOPPED\<close>, the beat goes back to 1
  and the bar stays where it was.
\<close>

theorem bar_increment_counterexample:
  "g_nClock end_of_bar = 23
   \<and> to_float (g_nBeat end_of_bar + 1) > g_fBeatsPerBar end_of_bar
   \<and> g_nBeat (snd (snd (clock_pulse True 256 end_of_bar))) = 1
   \<and> g_nBar (snd (snd (clock_pulse True 256 end_of_bar))) = g_nBar end_of_bar
   \<and> g_nBar (snd (snd (clock_pulse True 256 end_of_bar))) \<noteq> g_nBar end_of_bar + 1"
  by (simp add: clock_pulse_def Let_def split_beta next_clock_def end_of_bar_def to_float_def)

text \<open>
  Claim C5, amended: for a clock within \<open>0..23\<close>, one pulse asserts the sync flag
  exactly when the clock is 0 and the beat is 1; the clock goes to its successor
  modulo 24; when it wraps, the beat is incremented and, if it then exceeds the
  beats per bar, reset to 1; the bar is incremented at that reset only while the
  song status is \<open>PLAYING\<close>, and is unchanged otherwise.
\<close>

theorem clock_pulse_advances:
  "g_nClock st < 24 \<Longrightarrow>
     fst (clock_pulse playing n st) = (g_nClock st = 0 \<and> g_nBeat st = 1)
     \<and> unat (g_nClock (snd (snd (clock_pulse playing n st)))) = (unat (g_nClock st) + 1) mod 24
     \<and> g_nBeat (snd (snd (clock_pulse playing n st))) =
           (if g_nClock st = 23
            then (if to_float (g_nBeat st + 1) > g_fBeatsPerBar st then 1 else g_nBeat st + 1)
            else g_nBeat st)
     \<and> g_nBar (snd (snd (clock_pulse playing n st))) =
           (if g_nClock st = 23 \<and> to_float (g_nBeat st + 1) > g_fBeatsPerBar st
               \<and> g_nSongStatus st = PLAYING
            then g_nBar st + 1 else g_nBar st)"
proof -
  assume a: "g_nClock st < 24"
  have s: "fst (clock_pulse playing n st) = (g_nClock st = 0 \<and> g_nBeat st = 1)"
    by (simp add: clock_pulse_def Let_def split_beta on_beat_keeps)
  have c: "g_nClock (snd (snd (clock_pulse playing n st))) =
      (if g_nClock st = 23 then 0 else g_nClock st + 1)"
    using u8_succ_gt_23[OF a]
    by (simp add: clock_pulse_def Let_def split_beta on_beat_keeps next_clock_def)
  have m: "unat (g_nClock (snd (snd (clock_pulse playing n st)))) = (unat (g_nClock st) + 1) mod 24"
    unfolding c by (rule u8_succ_mod[OF a])
  have b: "g_nBeat (snd (snd (clock_pulse playing n st))) =
           (if g_nClock st = 23
            then (if to_float (g_nBeat st + 1) > g_fBeatsPerBar st then 1 else g_nBeat st + 1)
            else g_nBeat st)"
    using u8_succ_gt_23[OF a]
    by (simp add: clock_pulse_def Let_def split_beta on_beat_keeps next_clock_def)
  have r: "g_nBar (snd (snd (clock_pulse playing n st))) =
           (if g_nClock st = 23 \<and> to_float (g_nBeat st + 1) > g_fBeatsPerBar st
               \<and> g_nSongStatus st = PLAYING
            then g_nBar st + 1 else g_nBar st)"
    using u8_succ_gt_23[OF a]
    by (simp add: clock_pulse_def Let_def split_beta on_beat_keeps next_clock_def)
  from s m b r show ?thesis by blast
qed

text \<open>
  The theorem at the last clock of bar 1 of a playing song in 4/4: no sync pulse,
  the clock wraps to 0, the beat goes from 4 to 1 and the bar from 1 to 2.
\<close>

theorem clock_pulse_advances_witness:
  "g_nClock (end_of_bar\<lparr>g_nSongStatus := PLAYING\<rparr>) < 24
   \<and> \<not> fst (clock_pulse True 256 (end_of_bar\<lparr>g_nSongStatus := PLAYING\<rparr>))
   \<and> unat (g_nClock (snd (snd (clock_pulse True 256 (end_of_bar\<lparr>g_nSongStatus := PLAYING\<rparr>))))) = 0
   \<and> g_nBeat (snd (snd (clock_pulse True 256 (end_of_bar\<lparr>g_nSongStatus := PLAYING\<rparr>)))) = 1
   \<and> g_nBar (snd (snd (clock_pulse True 256 (end_of_bar\<lparr>g_nSongStatus := PLAYING\<rparr>)))) = 2"
proof -
  have h: "g_nClock (end_of_bar\<lparr>g_nSongStatus := PLAYING\<rparr>) < 24"
    by (simp add: end_of_bar_def)
  show ?thesis
    using h clock_pulse_advances[OF h, of True 256]
    by (simp add: end_of_bar_def to_float_def)
qed

section \<open>Frames per clock\<close>

lemma getFramesPerClock_eq:
  assumes "60 * unat (g_nSampleRate st) < 2 ^ 32"
  shows "getFramesPerClock st t = 60 * real (unat (g_nSampleRate st)) / (t * 24)"
proof -
  have "unat (60::32 word) * unat (g_nSampleRate st) < 2 ^ LENGTH(32)"
    using assms by simp
  then have "unat (60 * g_nSampleRate st) = 60 * unat (g_nSampleRate st)"
    using unat_mult_lem[of 60 "g_nSampleRate st"] by simp
  then show ?thesis
    by (simp add: getFramesPerClock_def getFramesPerTick_def to_float_def
        g_dTicksPerClock_def g_dTicksPerBeat_def)
qed

lemma timebase_event_rate: "g_nSampleRate (timebase_event e st) = g_nSampleRate st"
  by (cases "tb_type e") (simp_all add: timebase_event_def Let_def)

lemma timebase_event_bar: "g_nBar (timebase_event e st) = g_nBar st"
  by (cases "tb_type e") (simp_all add: timebase_event_def Let_def)

lemma tempo_event_consistent:
  assumes "60 * unat (g_nSampleRate st) < 2 ^ 32"
      and "tb_type e = TIMEBASE_TYPE_TEMPO" and "tb_value e \<noteq> 0"
  shows "tempo_consistent (timebase_event e st)"
proof -
  have "unat (tb_value e) \<noteq> 0" using assms(3) by (simp add: unat_eq_0)
  then have "(1::nat) \<le> unat (tb_value e)" by simp
  then have "real 1 \<le> real (unat (tb_value e))" by (rule of_nat_mono)
  then have "1 \<le> real (unat (tb_value e))" by simp
  moreover have "getFramesPerClock (st\<lparr>g_dTempo := real (unat (tb_value e))\<rparr>) (real (unat (tb_value e)))
      = 60 * real (unat (g_nSampleRate st)) / (real (unat (tb_value e)) * 24)"
    using getFramesPerClock_eq[of "st\<lparr>g_dTempo := real (unat (tb_value e))\<rparr>"] assms(1) by simp
  ultimately show ?thesis
    using assms(2) by (simp add: tempo_consistent_def timebase_event_def Let_def)
qed

lemma timebase_event_consistent:
  assumes "60 * unat (g_nSampleRate st) < 2 ^ 32" and "tempo_nonzero e"
      and "tempo_consistent st"
  shows "tempo_consistent (timebase_event e st)"
proof (cases "tb_type e")
  case TIMEBASE_TYPE_TEMPO
  then show ?thesis using assms tempo_event_consistent by (simp add: tempo_nonzero_def)
next
  case TIMEBASE_TYPE_TIMESIG
  then show ?thesis using assms(3) by (simp add: tempo_consistent_def timebase_event_def)
qed

lemma process_rate: "g_nSampleRate (snd (process_timebase_events evs st)) = g_nSampleRate st"
  by (induction evs arbitrary: st) (simp_all add: timebase_event_rate)

lemma process_consistent:
  assumes "60 * unat (g_nSampleRate st) < 2 ^ 32" and "list_all tempo_nonzero evs"
      and "tempo_consistent st"
  shows "tempo_consistent (snd (process_timebase_events evs st))"
  using assms
proof (induction evs arbitrary: st)
  case Nil
  then show ?case by simp
next
  case (Cons e rest)
  show ?case
  proof (cases "unat (tb_bar e) \<le> unat (g_nBar st)")
    case True
    have "tempo_consistent (snd (process_timebase_events rest (timebase_event e st)))"
      using Cons.prems
      by (intro Cons.IH timebase_event_consistent) (simp_all add: timebase_event_rate)
    then show ?thesis using True by simp
  next
    case False
    then show ?thesis using Cons.prems by simp
  qed
qed

lemma float_to_u32_floor:
  assumes "0 \<le> x" and "x < 2 ^ 32"
  shows "to_float (float_to_u32 x) \<le> x" and "x < to_float (float_to_u32 x) + 1"
proof -
  have f0: "0 \<le> \<lfloor>x\<rfloor>" using assms(1) by simp
  have f1: "\<lfloor>x\<rfloor> < 2 ^ 32" using assms(2) by (simp add: floor_less_iff)
  have "uint (word_of_int \<lfloor>x\<rfloor> :: 32 word) = \<lfloor>x\<rfloor>"
    using f0 f1 by (simp add: uint_word_of_int take_bit_int_eq_self)
  then have "int (unat (float_to_u32 x)) = \<lfloor>x\<rfloor>"
    using assms(1) by (simp add: float_to_u32_def)
  then have r: "to_float (float_to_u32 x) = of_int \<lfloor>x\<rfloor>"
    unfolding to_float_def by (metis of_int_of_nat_eq)
  show "to_float (float_to_u32 x) \<le> x" unfolding r by simp
  show "x < to_float (float_to_u32 x) + 1" unfolding r by linarith
qed

lemma clock_pulse_reload:
  "g_nFramesToNextClock (snd (snd (clock_pulse playing n st))) = float_to_u32 (g_dFramesPerClock st)"
  by (simp add: clock_pulse_def Let_def split_beta on_beat_def next_clock_def)

lemma consistent_bound:
  assumes "60 * unat (g_nSampleRate st) < 2 ^ 32" and "tempo_consistent st"
  shows "0 \<le> g_dFramesPerClock st" and "g_dFramesPerClock st < 2 ^ 32"
proof -
  let ?n = "60 * real (unat (g_nSampleRate st))"
  have t: "1 \<le> g_dTempo st" and f: "g_dFramesPerClock st = ?n / (g_dTempo st * 24)"
    using assms(2) by (simp_all add: tempo_consistent_def)
  have n0: "0 \<le> ?n" by (rule mult_nonneg_nonneg[OF _ of_nat_0_le_iff]) simp
  have "0 \<le> g_dTempo st * 24" using t by simp
  with n0 have "0 \<le> ?n / (g_dTempo st * 24)" by (rule divide_nonneg_nonneg)
  then show "0 \<le> g_dFramesPerClock st" unfolding f .
  have "real (60 * unat (g_nSampleRate st)) < real (2 ^ 32)"
    using assms(1) of_nat_less_iff by blast
  then have n: "?n < 2 ^ 32" by simp
  have "?n / (g_dTempo st * 24) \<le> ?n / 1"
    using t n0 by (intro divide_left_mono) simp_all
  then show "g_dFramesPerClock st < 2 ^ 32" unfolding f using n by simp
qed

text \<open>
  Claim C6 as it is stated fails for a sample rate whose product with 60 does not
  fit 32 bits: at 71582789 frames per second \<^verbatim>\<open>60 * g_nSampleRate\<close> wraps to 44, and
  a tempo event of 60 beats per minute sets the frames per clock to \<open>11/360\<close>,
  where the formula gives more than 2982616.
\<close>

theorem frames_per_clock_counterexample:
  "g_dTempo (snd (process_timebase_events [tempo_60] fast_transport)) = 60
   \<and> g_dFramesPerClock (snd (process_timebase_events [tempo_60] fast_transport)) = 11 / 360
   \<and> 60 * real (unat (g_nSampleRate fast_transport)) / (60 * 24) > 2982616"
  by (simp add: fast_transport_def end_of_bar_def tempo_60_def timebase_event_def Let_def
      getFramesPerClock_def getFramesPerTick_def to_float_def g_dTicksPerClock_def
      g_dTicksPerBeat_def)

text \<open>
  Claim C6, amended: let \<open>60 \<times> sample_rate\<close> fit 32 bits and let the tempo events
  carry non-zero values.  When the timebase loop consumes a tempo event, the tempo
  becomes the value of the event, and after the loop the frames per clock equal
  \<open>(60 \<times> sample_rate) / (tempo \<times> 24)\<close> for the tempo then in force (exactly, in
  exact arithmetic; \<open>ticks_per_beat = 1920\<close> cancels against the 80 ticks per
  clock).  The frame count that a clock pulse then loads from it is its integer
  part, so it differs from the formula by less than one frame.  Between the two
  loops the callback recomputes the position and may reread the tempo from the
  timebase map, but it does not assign the frames per clock; the pulse is
  therefore stated for every state with the same frames per clock.
\<close>

theorem frames_per_clock_after_tempo_event:
  "60 * unat (g_nSampleRate st) < 2 ^ 32 \<Longrightarrow>
   list_all tempo_nonzero (e # rest) \<Longrightarrow>
   tb_type e = TIMEBASE_TYPE_TEMPO \<Longrightarrow>
   unat (tb_bar e) \<le> unat (g_nBar st) \<Longrightarrow>
     g_dTempo (timebase_event e st) = real (unat (tb_value e))
     \<and> g_dFramesPerClock (snd (process_timebase_events (e # rest) st))
           = 60 * real (unat (g_nSampleRate st))
               / (g_dTempo (snd (process_timebase_events (e # rest) st)) * 24)
     \<and> (\<forall>st2. g_dFramesPerClock st2
                 = g_dFramesPerClock (snd (process_timebase_events (e # rest) st)) \<longrightarrow>
           to_float (g_nFramesToNextClock (snd (snd (clock_pulse playing n st2))))
             \<le> g_dFramesPerClock (snd (process_timebase_events (e # rest) st))
           \<and> g_dFramesPerClock (snd (process_timebase_events (e # rest) st))
             < to_float (g_nFramesToNextClock (snd (snd (clock_pulse playing n st2)))) + 1)"
proof -
  assume a1: "60 * unat (g_nSampleRate st) < 2 ^ 32"
     and a2: "list_all tempo_nonzero (e # rest)"
     and a3: "tb_type e = TIMEBASE_TYPE_TEMPO"
     and a4: "unat (tb_bar e) \<le> unat (g_nBar st)"
  let ?st = "snd (process_timebase_events (e # rest) st)"
  have t: "g_dTempo (timebase_event e st) = real (unat (tb_value e))"
    using a3 by (simp add: timebase_event_def Let_def)
  have c1: "tempo_consistent (timebase_event e st)"
    using a1 a2 a3 by (intro tempo_event_consistent) (simp_all add: tempo_nonzero_def)
  have "tempo_consistent (snd (process_timebase_events rest (timebase_event e st)))"
    using a1 a2 c1 by (intro process_consistent) (simp_all add: timebase_event_rate)
  then have c: "tempo_consistent ?st" using a4 by simp
  have r: "g_nSampleRate ?st = g_nSampleRate st" by (rule process_rate)
  have f: "g_dFramesPerClock ?st = 60 * real (unat (g_nSampleRate st)) / (g_dTempo ?st * 24)"
    using c r by (simp add: tempo_consistent_def)
  have b: "0 \<le> g_dFramesPerClock ?st" "g_dFramesPerClock ?st < 2 ^ 32"
    using consistent_bound[of ?st] c r a1 by simp_all
  have p: "to_float (g_nFramesToNextClock (snd (snd (clock_pulse playing n st2))))
             \<le> g_dFramesPerClock ?st
           \<and> g_dFramesPerClock ?st
             < to_float (g_nFramesToNextClock (snd (snd (clock_pulse playing n st2)))) + 1"
    if "g_dFramesPerClock st2 = g_dFramesPerClock ?st" for st2
    unfolding clock_pulse_reload that
    using float_to_u32_floor(1)[OF b] float_to_u32_floor(2)[OF b] by simp
  from t f p show ?thesis by blast
qed

text \<open>
  The theorem at 48000 frames per second and a change to 60 beats per minute:
  2000 frames per clock, loaded by the next pulse.
\<close>

theorem frames_per_clock_after_tempo_event_witness:
  "60 * unat (g_nSampleRate end_of_bar) < 2 ^ 32
   \<and> list_all tempo_nonzero [tempo_60]
   \<and> tb_type tempo_60 = TIMEBASE_TYPE_TEMPO
   \<and> unat (tb_bar tempo_60) \<le> unat (g_nBar end_of_bar)
   \<and> g_dTempo (timebase_event tempo_60 end_of_bar) = 60
   \<and> g_dFramesPerClock (snd (process_timebase_events [tempo_60] end_of_bar))
        = 60 * 48000 / (g_dTempo (snd (process_timebase_events [tempo_60] end_of_bar)) * 24)
   \<and> to_float (g_nFramesToNextClock
        (snd (snd (clock_pulse True 256 (snd (process_timebase_events [tempo_60] end_of_bar))))))
        \<le> g_dFramesPerClock (snd (process_timebase_events [tempo_60] end_of_bar))
   \<and> g_dFramesPerClock (snd (process_timebase_events [tempo_60] end_of_bar))
        < to_float (g_nFramesToNextClock
            (snd (snd (clock_pulse True 256 (snd (process_timebase_events [tempo_60] end_of_bar)))))) + 1"
proof -
  have h1: "60 * unat (g_nSampleRate end_of_bar) < 2 ^ 32" by (simp add: end_of_bar_def)
  have h2: "list_all tempo_nonzero [tempo_60]" by (simp add: tempo_nonzero_def tempo_60_def)
  have h3: "tb_type tempo_60 = TIMEBASE_TYPE_TEMPO" by (simp add: tempo_60_def)
  have h4: "unat (tb_bar tempo_60) \<le> unat (g_nBar end_of_bar)"
    by (simp add: tempo_60_def end_of_bar_def)
  have v: "real (unat (tb_value tempo_60)) = 60" by (simp add: tempo_60_def)
  have sr: "real (unat (g_nSampleRate end_of_bar)) = 48000" by (simp add: end_of_bar_def)
  show ?thesis
    using h1 h2 h3 h4 frames_per_clock_after_tempo_event[OF h1 h2 h3 h4, of True 256]
    unfolding v sr by blast
qed

text \<open>The values of the witness, evaluated.\<close>

lemma frames_per_clock_example:
  "g_dFramesPerClock (snd (process_timebase_events [tempo_60] end_of_bar)) = 2000"
  "g_nFramesToNextClock
     (snd (snd (clock_pulse True 256 (snd (process_timebase_events [tempo_60] end_of_bar))))) = 2000"
  by (simp_all add: end_of_bar_def tempo_60_def timebase_event_def Let_def
      getFramesPerClock_def getFramesPerTick_def to_float_def g_dTicksPerClock_def
      g_dTicksPerBeat_def clock_pulse_reload float_to_u32_def)

section \<open>Draining the schedule\<close>

lemma word_less_succ: "(a::32 word) < b \<Longrightarrow> a < a + 1"
  by (metis (no_types, lifting) add_cancel_left_right inc_i leI nless_le
    olen_add_eqv word_less_1)

lemma drain_loop_offsets:
  "drain_loop nNow nFrames cap nNextTime passed sched = (out, sched') \<Longrightarrow>
     (\<forall>t \<in> set (map fst out). nNextTime \<le> t \<and> t < nFrames) \<and> sorted_wrt (<) (map fst out)"
proof (induction sched arbitrary: cap nNextTime passed out sched')
  case Nil
  then show ?case by simp
next
  case (Cons e rest)
  obtain first second where e: "e = (first, second)" by (cases e)
  define nTime0 where "nTime0 = (if first < nNow then nNextTime else first - nNow)"
  define nTime where "nTime = (if nTime0 < nNextTime then nNextTime else nTime0)"
  have ge: "nNextTime \<le> nTime" by (simp add: nTime_def not_less)
  show ?case
  proof (cases "first \<ge> nNow + nFrames \<or> nTime \<ge> nFrames \<or> cap = 0")
    case True
    then have "out = []"
      using Cons.prems by (auto simp: e Let_def nTime_def nTime0_def split: if_splits)
    then show ?thesis by simp
  next
    case False
    then have lt: "nTime < nFrames" by (simp add: not_le)
    obtain out1 s1 where rec: "drain_loop nNow nFrames (cap - 1) (nTime + 1) (passed @ [(first, None)]) rest = (out1, s1)"
      by (cases "drain_loop nNow nFrames (cap - 1) (nTime + 1) (passed @ [(first, None)]) rest")
    have out: "out = (nTime, second) # out1"
      using Cons.prems False rec by (auto simp: e Let_def nTime_def nTime0_def split: if_splits)
    have ih: "(\<forall>t \<in> set (map fst out1). nTime + 1 \<le> t \<and> t < nFrames) \<and> sorted_wrt (<) (map fst out1)"
      by (rule Cons.IH[OF rec])
    have step: "nTime < nTime + 1"
      using lt by (rule word_less_succ)
    have "\<forall>t \<in> set (map fst out1). nTime < t" using ih step by auto
    moreover have "\<forall>t \<in> set (map fst out1). nNextTime \<le> t" using ih step ge by auto
    ultimately show ?thesis using ih ge lt by (simp add: out)
  qed
qed

lemma drain_loop_order:
  "drain_loop nNow nFrames cap nNextTime passed sched = (out, sched') \<Longrightarrow>
     map snd out = map snd (take (length out) sched)"
proof (induction sched arbitrary: cap nNextTime passed out sched')
  case Nil
  then show ?case by simp
next
  case (Cons e rest)
  obtain first second where e: "e = (first, second)" by (cases e)
  define nTime0 where "nTime0 = (if first < nNow then nNextTime else first - nNow)"
  define nTime where "nTime = (if nTime0 < nNextTime then nNextTime else nTime0)"
  show ?case
  proof (cases "first \<ge> nNow + nFrames \<or> nTime \<ge> nFrames \<or> cap = 0")
    case True
    then have "out = []"
      using Cons.prems by (auto simp: e Let_def nTime_def nTime0_def split: if_splits)
    then show ?thesis by simp
  next
    case False
    obtain out1 s1 where rec: "drain_loop nNow nFrames (cap - 1) (nTime + 1) (passed @ [(first, None)]) rest = (out1, s1)"
      by (cases "drain_loop nNow nFrames (cap - 1) (nTime + 1) (passed @ [(first, None)]) rest")
    have out: "out = (nTime, second) # out1"
      using Cons.prems False rec by (auto simp: e Let_def nTime_def nTime0_def split: if_splits)
    show ?thesis using Cons.IH[OF rec] by (simp add: out e)
  qed
qed

lemma drain_loop_schedule:
  "drain_loop nNow nFrames cap nNextTime passed sched = (out, sched') \<Longrightarrow>
     sched' = drop (length out) sched
     \<or> sched' = passed @ map (\<lambda>(k, m). (k, None)) (take (length out) sched) @ drop (length out) sched"
proof (induction sched arbitrary: cap nNextTime passed out sched')
  case Nil
  then show ?case by simp
next
  case (Cons e rest)
  obtain first second where e: "e = (first, second)" by (cases e)
  define nTime0 where "nTime0 = (if first < nNow then nNextTime else first - nNow)"
  define nTime where "nTime = (if nTime0 < nNextTime then nNextTime else nTime0)"
  show ?case
  proof (cases "first \<ge> nNow + nFrames \<or> nTime \<ge> nFrames \<or> cap = 0")
    case True
    then have "out = [] \<and> (sched' = e # rest \<or> sched' = passed @ e # rest)"
      using Cons.prems by (auto simp: e Let_def nTime_def nTime0_def split: if_splits)
    then show ?thesis by auto
  next
    case False
    obtain out1 s1 where rec: "drain_loop nNow nFrames (cap - 1) (nTime + 1) (passed @ [(first, None)]) rest = (out1, s1)"
      by (cases "drain_loop nNow nFrames (cap - 1) (nTime + 1) (passed @ [(first, None)]) rest")
    have out: "out = (nTime, second) # out1" and s: "sched' = s1"
      using Cons.prems False rec by (auto simp: e Let_def nTime_def nTime0_def split: if_splits)
    show ?thesis using Cons.IH[OF rec] by (auto simp: out s e)
  qed
qed

lemma drain_offsets:
  "sorted_wrt (<) (map fst (fst (drain nNow nFrames cap sched)))
   \<and> list_all (\<lambda>t. t < nFrames) (map fst (fst (drain nNow nFrames cap sched)))"
proof (cases "sched = []")
  case True
  then show ?thesis by (simp add: drain_def)
next
  case False
  obtain out s' where d: "drain_loop nNow nFrames cap 0 [] sched = (out, s')"
    by (cases "drain_loop nNow nFrames cap 0 [] sched")
  show ?thesis
    using False drain_loop_offsets[OF d] by (simp add: drain_def d list_all_iff)
qed

lemma drain_order:
  "map snd (fst (drain nNow nFrames cap sched))
     = map snd (take (length (fst (drain nNow nFrames cap sched))) sched)"
proof (cases "sched = []")
  case True
  then show ?thesis by (simp add: drain_def)
next
  case False
  obtain out s' where d: "drain_loop nNow nFrames cap 0 [] sched = (out, s')"
    by (cases "drain_loop nNow nFrames cap 0 [] sched")
  show ?thesis
    using False drain_loop_order[OF d] by (simp add: drain_def d)
qed

lemma drain_nth:
  assumes "j < length (fst (drain nNow nFrames cap sched))"
  shows "snd (fst (drain nNow nFrames cap sched) ! j) = snd (sched ! j)"
proof -
  define out where "out = fst (drain nNow nFrames cap sched)"
  have eq: "map snd out = map snd (take (length out) sched)"
    unfolding out_def by (rule drain_order)
  have j: "j < length out" using assms by (simp add: out_def)
  have "length (map snd out) = length (map snd (take (length out) sched))"
    using eq by (rule arg_cong)
  then have jt: "j < length (take (length out) sched)" using j by simp
  have "snd (out ! j) = map snd out ! j" using j by simp
  also have "\<dots> = map snd (take (length out) sched) ! j" using eq by simp
  also have "\<dots> = snd (take (length out) sched ! j)" using jt by (rule nth_map)
  also have "\<dots> = snd (sched ! j)" using j by simp
  finally show ?thesis by (simp add: out_def)
qed

lemma first_free_slot_least:
  assumes "k \<notin> set (map fst sched)" and "\<forall>j<k. j \<in> set (map fst sched)" and "time \<le> k"
  shows "first_free_slot sched time = Some k"
  using assms(3)
proof (induction "unat k - unat time" arbitrary: time rule: less_induct)
  case less
  show ?case
  proof (cases "time = k")
    case True
    then show ?thesis using assms(1) by (subst first_free_slot.simps) simp
  next
    case False
    then have lt: "time < k" using less.prems by simp
    then have occ: "time \<in> set (map fst sched)" using assms(2) by blast
    have le: "time + 1 \<le> k" using lt by (rule inc_le)
    have "unat time < unat k" using lt by (simp add: word_less_nat_alt)
    moreover have "unat k < 2 ^ LENGTH(32)" by (rule unsigned_less)
    ultimately have "unat time + unat (1::u32) < 2 ^ LENGTH(32)" by simp
    then have "unat (time + 1) = unat time + 1"
      using unat_add_lem[of time 1] by simp
    then have "unat k - unat (time + 1) < unat k - unat time"
      using lt by (simp add: word_less_nat_alt)
    then have "first_free_slot sched (time + 1) = Some k"
      using le by (rule less.hyps)
    then show ?thesis using occ by (subst first_free_slot.simps) simp
  qed
qed


lemma first_free_slot_Least:
  assumes "\<exists>k. k \<notin> set (map fst sched)"
  shows "first_free_slot sched 0 = Some (LEAST k. k \<notin> set (map fst sched))"
proof (rule first_free_slot_least)
  show "(LEAST k. k \<notin> set (map fst sched)) \<notin> set (map fst sched)"
    using assms by (rule LeastI_ex)
  show "\<forall>j<LEAST k. k \<notin> set (map fst sched). j \<in> set (map fst sched)"
    using not_less_Least by blast
  show "0 \<le> (LEAST k. k \<notin> set (map fst sched))" by simp
qed

lemma free_key_exists:
  assumes "length sched < 2 ^ 32"
  shows "\<exists>k::u32. k \<notin> set (map fst sched)"
proof (rule ccontr)
  assume "\<not> ?thesis"
  then have "set (map fst sched) = (UNIV :: u32 set)" by auto
  then have "card (set (map fst sched)) = 2 ^ 32" by (simp add: card_word)
  moreover have "card (set (map fst sched)) \<le> length sched"
    by (metis card_length length_map)
  ultimately show False using assms by simp
qed

lemma map_store_keys: "fst ` set (map_store k v sched) = insert k (fst ` set sched)"
  by (induction sched) force+

lemma map_store_length: "length (map_store k v sched) \<le> length sched + 1"
  by (induction sched) auto

lemma map_store_mem: "(k, v) \<in> set (map_store k v sched)"
  by (induction sched) auto

lemma map_store_keeps: "e \<in> set sched \<Longrightarrow> fst e \<noteq> k \<Longrightarrow> e \<in> set (map_store k v sched)"
  by (induction sched) auto

lemma map_store_sorted:
  "sorted_wrt (<) (map fst sched) \<Longrightarrow> sorted_wrt (<) (map fst (map_store k v sched))"
proof (induction sched)
  case Nil
  then show ?case by simp
next
  case (Cons e rest)
  obtain k' v' where e: "e = (k', v')" by (cases e)
  have srt: "sorted_wrt (<) (map fst rest)" and above: "\<forall>x \<in> fst ` set rest. k' < x"
    using Cons.prems by (auto simp: e)
  show ?case
  proof (cases "k < k'")
    case True
    then have "\<forall>x \<in> fst ` set rest. k < x" using above by fastforce
    then show ?thesis using True srt above by (auto simp: e)
  next
    case False
    show ?thesis
    proof (cases "k = k'")
      case True
      then show ?thesis using srt above by (auto simp: e)
    next
      case ne: False
      then have "k' < k" using False by simp
      then have "\<forall>x \<in> fst ` set (map_store k v rest). k' < x"
        using above by (simp add: map_store_keys)
      then show ?thesis using False ne Cons.IH[OF srt] by (auto simp: e)
    qed
  qed
qed

lemma sorted_indices:
  assumes "sorted_wrt (<) (map fst s)" and "(k1, x) \<in> set s" and "(k2, y) \<in> set s"
      and "k1 < (k2::u32)"
  shows "\<exists>i j. i < j \<and> j < length s \<and> s ! i = (k1, x) \<and> s ! j = (k2, y)"
proof -
  obtain i where i: "i < length s" "s ! i = (k1, x)" using assms(2) by (auto simp: in_set_conv_nth)
  obtain j where j: "j < length s" "s ! j = (k2, y)" using assms(3) by (auto simp: in_set_conv_nth)
  have "i < j"
  proof (rule ccontr)
    assume "\<not> i < j"
    then have "j = i \<or> j < i" by auto
    then show False
    proof
      assume "j = i" then show False using i j assms(4) by simp
    next
      assume "j < i"
      moreover have "i < length (map fst s)" using i(1) by simp
      ultimately have "map fst s ! j < map fst s ! i"
        using assms(1) by (rule sorted_wrt_nth_less[rotated])
      then show False using i j assms(4) by simp
    qed
  qed
  then show ?thesis using i j by blast
qed

lemma map_store_set:
  "k \<notin> fst ` set sched \<Longrightarrow> set (map_store k v sched) = insert (k, v) (set sched)"
  by (induction sched) force+

lemma sendMidiMsg_order_kept:
  assumes "sorted_wrt (<) (map fst sched)" and "length sched < 2 ^ 32"
  shows "\<exists>s1. sendMidiMsg a sched = Some s1 \<and> sorted_wrt (<) (map fst s1)
      \<and> length s1 \<le> length sched + 1
      \<and> (\<forall>s2. sorted_wrt (<) (map fst s2) \<and> set s1 \<subseteq> set s2 \<and> length s2 < 2 ^ 32 \<longrightarrow>
            (\<exists>s3 i j. sendMidiMsg b s2 = Some s3
               \<and> i < j \<and> j < length s3
               \<and> s3 ! i \<in> set s1 \<and> s3 ! i \<notin> set sched \<and> snd (s3 ! i) = Some a
               \<and> s3 ! j \<notin> set s2 \<and> snd (s3 ! j) = Some b
               \<and> (\<forall>nNow nFrames cap. j < length (fst (drain nNow nFrames cap s3)) \<longrightarrow>
                     fst (fst (drain nNow nFrames cap s3) ! i)
                       < fst (fst (drain nNow nFrames cap s3) ! j)
                     \<and> snd (fst (drain nNow nFrames cap s3) ! i) = Some a
                     \<and> snd (fst (drain nNow nFrames cap s3) ! j) = Some b)))"
proof -
  define k1 where "k1 = (LEAST k. k \<notin> set (map fst sched))"
  define s1 where "s1 = map_store k1 (Some a) sched"
  have f1: "\<exists>k. k \<notin> set (map fst sched)" using assms(2) by (rule free_key_exists)
  have k1free: "k1 \<notin> set (map fst sched)" unfolding k1_def using f1 by (rule LeastI_ex)
  have below: "j \<in> set (map fst sched)" if "j < k1" for j
    using that not_less_Least unfolding k1_def by blast
  have send1: "sendMidiMsg a sched = Some s1"
    using first_free_slot_Least[OF f1] by (simp add: sendMidiMsg_def s1_def k1_def)
  have srt1: "sorted_wrt (<) (map fst s1)"
    unfolding s1_def by (intro map_store_sorted assms(1))
  have len1: "length s1 \<le> length sched + 1" unfolding s1_def by (rule map_store_length)
  have set1: "set s1 = insert (k1, Some a) (set sched)"
    unfolding s1_def using k1free by (intro map_store_set) simp
  have anew: "(k1, Some a) \<notin> set sched"
    using k1free by (metis fst_conv image_eqI set_map)
  have main: "\<exists>s3 i j. sendMidiMsg b s2 = Some s3
               \<and> i < j \<and> j < length s3
               \<and> s3 ! i \<in> set s1 \<and> s3 ! i \<notin> set sched \<and> snd (s3 ! i) = Some a
               \<and> s3 ! j \<notin> set s2 \<and> snd (s3 ! j) = Some b
               \<and> (\<forall>nNow nFrames cap. j < length (fst (drain nNow nFrames cap s3)) \<longrightarrow>
                     fst (fst (drain nNow nFrames cap s3) ! i)
                       < fst (fst (drain nNow nFrames cap s3) ! j)
                     \<and> snd (fst (drain nNow nFrames cap s3) ! i) = Some a
                     \<and> snd (fst (drain nNow nFrames cap s3) ! j) = Some b)"
    if srt2: "sorted_wrt (<) (map fst s2)" and sub: "set s1 \<subseteq> set s2"
      and len2: "length s2 < 2 ^ 32" for s2
  proof -
    define k2 where "k2 = (LEAST k. k \<notin> set (map fst s2))"
    define s3 where "s3 = map_store k2 (Some b) s2"
    have f2: "\<exists>k. k \<notin> set (map fst s2)" using len2 by (rule free_key_exists)
    have k2free: "k2 \<notin> set (map fst s2)" unfolding k2_def using f2 by (rule LeastI_ex)
    have send2: "sendMidiMsg b s2 = Some s3"
      using first_free_slot_Least[OF f2] by (simp add: sendMidiMsg_def s3_def k2_def)
    have keys: "set (map fst s1) \<subseteq> set (map fst s2)" using sub by auto
    have "k1 \<in> set (map fst s1)" using set1 by force
    then have "k2 \<noteq> k1" using k2free keys by auto
    moreover have "\<not> k2 < k1"
    proof
      assume "k2 < k1"
      then have "k2 \<in> set (map fst sched)" by (rule below)
      then have "k2 \<in> set (map fst s1)" using set1 by auto
      then show False using k2free keys by auto
    qed
    ultimately have lt: "k1 < k2" by simp
    have "(k1, Some a) \<in> set s2" using set1 sub by auto
    then have ma: "(k1, Some a) \<in> set s3"
      unfolding s3_def using lt by (intro map_store_keeps) simp_all
    have mb: "(k2, Some b) \<in> set s3" unfolding s3_def by (rule map_store_mem)
    have bnew: "(k2, Some b) \<notin> set s2"
      using k2free by (metis fst_conv image_eqI set_map)
    have srt3: "sorted_wrt (<) (map fst s3)"
      unfolding s3_def by (intro map_store_sorted srt2)
    obtain i j where ij: "i < j" "j < length s3" "s3 ! i = (k1, Some a)" "s3 ! j = (k2, Some b)"
      using sorted_indices[OF srt3 ma mb lt] by blast
    have dr: "fst (fst (drain nNow nFrames cap s3) ! i) < fst (fst (drain nNow nFrames cap s3) ! j)
          \<and> snd (fst (drain nNow nFrames cap s3) ! i) = Some a
          \<and> snd (fst (drain nNow nFrames cap s3) ! j) = Some b"
      if w: "j < length (fst (drain nNow nFrames cap s3))" for nNow nFrames cap
    proof -
      let ?out = "fst (drain nNow nFrames cap s3)"
      have wi: "i < length ?out" using w ij(1) by simp
      have so: "sorted_wrt (<) (map fst ?out)" using drain_offsets by blast
      have jl: "j < length (map fst ?out)" using w by simp
      have "map fst ?out ! i < map fst ?out ! j"
        by (rule sorted_wrt_nth_less[OF so ij(1) jl])
      then have "fst (?out ! i) < fst (?out ! j)" using w wi by simp
      then show ?thesis using drain_nth[OF w] drain_nth[OF wi] ij by simp
    qed
    have e1: "s3 ! i \<in> set s1" "s3 ! i \<notin> set sched" "snd (s3 ! i) = Some a"
      using ij(3) set1 anew by simp_all
    have e2: "s3 ! j \<notin> set s2" "snd (s3 ! j) = Some b" using ij(4) bnew by simp_all
    from send2 ij(1,2) e1 e2 dr show ?thesis by blast
  qed
  from send1 srt1 len1 main show ?thesis by blast
qed

text \<open>
  Claim C1 as it is stated fails across a drain that stops early.  Two notes are
  sent, both for frame 0, and take the frames 0 and 1.  A cycle whose output
  buffer grants one event writes the first and erases it.  A third note, sent
  now, takes the freed frame 0, and the next cycle writes it at offset 0, before
  the second note at offset 1, which was inserted earlier.  (A comment in the
  drain says as much: events added in the past may be sent out of order.)
\<close>

theorem insertion_order_counterexample:
  "sendMidiMsg (note_msg 60) [] = Some [(0, Some (note_msg 60))]
   \<and> sendMidiMsg (note_msg 62) [(0, Some (note_msg 60))]
       = Some [(0, Some (note_msg 60)), (1, Some (note_msg 62))]
   \<and> drain 100 256 1 [(0, Some (note_msg 60)), (1, Some (note_msg 62))]
       = ([(0, Some (note_msg 60))], [(1, Some (note_msg 62))])
   \<and> sendMidiMsg (note_msg 64) [(1, Some (note_msg 62))]
       = Some [(0, Some (note_msg 64)), (1, Some (note_msg 62))]
   \<and> drain 356 256 8 [(0, Some (note_msg 64)), (1, Some (note_msg 62))]
       = ([(0, Some (note_msg 64)), (1, Some (note_msg 62))], [])"
  by (simp add: sendMidiMsg_def first_free_slot.simps drain_def Let_def
      word_le_nat_alt word_less_nat_alt)

text \<open>
  Claim C1, amended: in every cycle and for every schedule, the offsets at which
  the drain writes events to the output buffer increase strictly, hence never
  decrease, and lie within the period; and the messages are written in the order
  of their frames in the schedule, none skipped: the written messages are those
  of the first entries of the schedule, in that order.  The schedule is a map
  with one entry per frame, so messages sent for the same frame are put on
  distinct frames when they are inserted.  Insertion order is kept as long as no
  entry leaves the schedule in between: if \<^verbatim>\<open>sendMidiMsg\<close> inserts a message, and
  later, in any schedule that still holds all entries of that moment, inserts a
  second one, then the first has the earlier entry, and a drain that writes the
  second has written the first at a smaller offset.
\<close>

theorem drain_emits_in_order:
  "sorted_wrt (<) (map fst (fst (drain nNow nFrames cap sched)))
   \<and> list_all (\<lambda>t. t < nFrames) (map fst (fst (drain nNow nFrames cap sched)))
   \<and> map snd (fst (drain nNow nFrames cap sched))
       = map snd (take (length (fst (drain nNow nFrames cap sched))) sched)
   \<and> (sorted_wrt (<) (map fst sched) \<and> length sched < 2 ^ 32 \<longrightarrow>
        (\<exists>s1. sendMidiMsg a sched = Some s1 \<and> sorted_wrt (<) (map fst s1)
           \<and> length s1 \<le> length sched + 1
           \<and> (\<forall>s2. sorted_wrt (<) (map fst s2) \<and> set s1 \<subseteq> set s2 \<and> length s2 < 2 ^ 32 \<longrightarrow>
                 (\<exists>s3 i j. sendMidiMsg b s2 = Some s3
                    \<and> i < j \<and> j < length s3
                    \<and> s3 ! i \<in> set s1 \<and> s3 ! i \<notin> set sched \<and> snd (s3 ! i) = Some a
                    \<and> s3 ! j \<notin> set s2 \<and> snd (s3 ! j) = Some b
                    \<and> (\<forall>nNow nFrames cap. j < length (fst (drain nNow nFrames cap s3)) \<longrightarrow>
                          fst (fst (drain nNow nFrames cap s3) ! i)
                            < fst (fst (drain nNow nFrames cap s3) ! j)
                          \<and> snd (fst (drain nNow nFrames cap s3) ! i) = Some a
                          \<and> snd (fst (drain nNow nFrames cap s3) ! j) = Some b)))))"
  using drain_offsets[of nNow nFrames cap sched] drain_order[of nNow nFrames cap sched]
    sendMidiMsg_order_kept[of sched a b]
  by blast

text \<open>
  The theorem on the schedule with entries at the frames 5, 6 and 7, into which
  two notes are sent one after the other.
\<close>

theorem drain_emits_in_order_witness:
  "sorted_wrt (<) (map fst late_schedule) \<and> length late_schedule < 2 ^ 32
   \<and> sorted_wrt (<) (map fst (fst (drain 10 4 8 late_schedule)))
   \<and> (\<exists>s1 s3 i j. sendMidiMsg (note_msg 1) late_schedule = Some s1
         \<and> sorted_wrt (<) (map fst s1) \<and> set s1 \<subseteq> set s1 \<and> length s1 < 2 ^ 32
         \<and> sendMidiMsg (note_msg 2) s1 = Some s3
         \<and> i < j \<and> j < length s3 \<and> snd (s3 ! i) = Some (note_msg 1)
         \<and> snd (s3 ! j) = Some (note_msg 2)
         \<and> (\<forall>nNow nFrames cap. j < length (fst (drain nNow nFrames cap s3)) \<longrightarrow>
               fst (fst (drain nNow nFrames cap s3) ! i)
                 < fst (fst (drain nNow nFrames cap s3) ! j)
               \<and> snd (fst (drain nNow nFrames cap s3) ! i) = Some (note_msg 1)
               \<and> snd (fst (drain nNow nFrames cap s3) ! j) = Some (note_msg 2)))"
proof -
  have h1: "sorted_wrt (<) (map fst late_schedule)"
    by (simp add: late_schedule_def word_less_nat_alt)
  have h2: "length late_schedule < 2 ^ 32" by (simp add: late_schedule_def)
  have t: "sorted_wrt (<) (map fst (fst (drain 10 4 8 late_schedule)))"
    using drain_emits_in_order[of 10 4 8 late_schedule] by blast
  obtain s1 where s1: "sendMidiMsg (note_msg 1) late_schedule = Some s1"
      "sorted_wrt (<) (map fst s1)" "length s1 \<le> length late_schedule + 1"
    and nxt: "\<forall>s2. sorted_wrt (<) (map fst s2) \<and> set s1 \<subseteq> set s2 \<and> length s2 < 2 ^ 32 \<longrightarrow>
        (\<exists>s3 i j. sendMidiMsg (note_msg 2) s2 = Some s3
           \<and> i < j \<and> j < length s3
           \<and> s3 ! i \<in> set s1 \<and> s3 ! i \<notin> set late_schedule \<and> snd (s3 ! i) = Some (note_msg 1)
           \<and> s3 ! j \<notin> set s2 \<and> snd (s3 ! j) = Some (note_msg 2)
           \<and> (\<forall>nNow nFrames cap. j < length (fst (drain nNow nFrames cap s3)) \<longrightarrow>
                 fst (fst (drain nNow nFrames cap s3) ! i)
                   < fst (fst (drain nNow nFrames cap s3) ! j)
                 \<and> snd (fst (drain nNow nFrames cap s3) ! i) = Some (note_msg 1)
                 \<and> snd (fst (drain nNow nFrames cap s3) ! j) = Some (note_msg 2)))"
    using h1 h2 drain_emits_in_order[of 10 4 8 late_schedule "note_msg 1" "note_msg 2"]
    by blast
  have l1: "length s1 < 2 ^ 32" using s1(3) by (simp add: late_schedule_def)
  have "sorted_wrt (<) (map fst s1) \<and> set s1 \<subseteq> set s1 \<and> length s1 < 2 ^ 32"
    using s1(2) l1 by simp
  with nxt obtain s3 i j where "sendMidiMsg (note_msg 2) s1 = Some s3"
      "i < j" "j < length s3" "snd (s3 ! i) = Some (note_msg 1)" "snd (s3 ! j) = Some (note_msg 2)"
      "\<forall>nNow nFrames cap. j < length (fst (drain nNow nFrames cap s3)) \<longrightarrow>
                 fst (fst (drain nNow nFrames cap s3) ! i)
                   < fst (fst (drain nNow nFrames cap s3) ! j)
                 \<and> snd (fst (drain nNow nFrames cap s3) ! i) = Some (note_msg 1)
                 \<and> snd (fst (drain nNow nFrames cap s3) ! j) = Some (note_msg 2)"
    by blast
  with h1 h2 t s1 l1 show ?thesis by blast
qed

text \<open>The two sends of the witness, evaluated: the notes take the frames 0 and 1.\<close>

lemma sendMidiMsg_example:
  "sendMidiMsg (note_msg 1) late_schedule = Some ((0, Some (note_msg 1)) # late_schedule)"
  "sendMidiMsg (note_msg 2) ((0, Some (note_msg 1)) # late_schedule)
     = Some ((0, Some (note_msg 1)) # (1, Some (note_msg 2)) # late_schedule)"
  by (simp_all add: sendMidiMsg_def first_free_slot.simps late_schedule_def word_less_nat_alt)

text \<open>
  Where the drain stops at a \<^verbatim>\<open>break\<close> or at the end of the schedule, the entries
  written are erased and the others stay; where it returns for an entry bumped
  past the period, all entries stay and those written have null messages.
\<close>

lemma drain_schedule_cases:
  "snd (drain nNow nFrames cap sched) = drop (length (fst (drain nNow nFrames cap sched))) sched
   \<or> snd (drain nNow nFrames cap sched) =
       map (\<lambda>(k, m). (k, None)) (take (length (fst (drain nNow nFrames cap sched))) sched)
       @ drop (length (fst (drain nNow nFrames cap sched))) sched"
proof (cases "sched = []")
  case True
  then show ?thesis by (simp add: drain_def)
next
  case False
  obtain out s' where d: "drain_loop nNow nFrames cap 0 [] sched = (out, s')"
    by (cases "drain_loop nNow nFrames cap 0 [] sched")
  show ?thesis
    using False drain_loop_schedule[OF d] by (simp add: drain_def d)
qed

text \<open>
  Claim C9: when a drain stops early, the entries not yet written stay queued and
  the entries written are removed from the schedule.  The code returns without
  \<^verbatim>\<open>erase(begin, it)\<close> when an entry is bumped past the end of the period: with
  three late entries at the frames 5, 6 and 7, the cycle that starts at frame 10
  with a period of 2 frames writes the first two at the offsets 0 and 1 and then
  returns, and the schedule still holds all three entries, the first two with
  null messages, where the claim expects only the entry at frame 7.
\<close>

theorem drain_bumped_keeps_written_entries:
  "drain 10 2 8 late_schedule =
     ([(0, Some (note_msg 60)), (1, Some (note_msg 62))],
      [(5, None), (6, None), (7, Some (note_msg 64))])"
  by (simp add: drain_def late_schedule_def Let_def word_le_nat_alt word_less_nat_alt)

text \<open>
  The other two early stops on the same schedule, for comparison: a full output
  buffer after two events and an entry scheduled beyond the period both leave
  exactly the entries not written.
\<close>

lemma drain_break_erases_written_entries:
  "drain 10 4 2 late_schedule =
     ([(0, Some (note_msg 60)), (1, Some (note_msg 62))], [(7, Some (note_msg 64))])"
  "drain 5 2 8 late_schedule =
     ([(0, Some (note_msg 60)), (1, Some (note_msg 62))], [(7, Some (note_msg 64))])"
  by (simp_all add: drain_def late_schedule_def Let_def word_le_nat_alt word_less_nat_alt)


end
